theory Spec2Isabelle
  imports Main
begin

section \<open>Values\<close>

text \<open>
  \<^verbatim>\<open>const Status = { Success: 'Success', Failure: 'Failure', Running: 'Running' }\<close>
\<close>

datatype Status = Success | Failure | Running

text \<open>
  What a \<^verbatim>\<open>tick\<close> call can hand back and what the \<^verbatim>\<open>_storedResult\<close> slot of a
  decorator can hold: one of the three Status strings, \<^verbatim>\<open>undefined\<close> (a function
  that falls off its end, a property never assigned) or \<^verbatim>\<open>null\<close>.
\<close>

datatype jsval = Str Status | Undefined | Null

text \<open>JavaScript truthiness, as \<^verbatim>\<open>if (self._storedResult)\<close> reads it: the three
  Status strings are non-empty strings, \<^verbatim>\<open>undefined\<close> and \<^verbatim>\<open>null\<close> are falsy.\<close>

fun truthy :: "jsval \<Rightarrow> bool" where
  "truthy (Str _) = True"
| "truthy Undefined = False"
| "truthy Null = False"

text \<open>Calling \<^verbatim>\<open>.tick\<close> on \<^verbatim>\<open>undefined\<close> throws a TypeError.\<close>

datatype error = TypeError

type_synonym outcome = "error + jsval"

section \<open>Enumerator\<close>

text \<open>
  \<^verbatim>\<open>class Enumerator { constructor (nodes) { this.nodes = nodes; this.currentIndex = 0 } ... }\<close>
\<close>

record 'n Enumerator =
  nodes :: "'n list"
  currentIndex :: nat

definition new_Enumerator :: "'n list \<Rightarrow> 'n Enumerator" where
  "new_Enumerator ns = \<lparr>nodes = ns, currentIndex = 0\<rparr>"

text \<open>
  What the member access \<^verbatim>\<open>this.current\<close> evaluates to. \<^verbatim>\<open>current\<close> is a method
  of the class, so on every instance the access yields the function object; it is
  not called.
\<close>

datatype member = FunctionObject | UndefinedMember

definition current_member :: "'n Enumerator \<Rightarrow> member" where
  "current_member e = FunctionObject"

text \<open>\<^verbatim>\<open>isStarted () { return this.current !== undefined }\<close>\<close>

definition isStarted :: "'n Enumerator \<Rightarrow> bool" where
  "isStarted e = (current_member e \<noteq> UndefinedMember)"

text \<open>\<^verbatim>\<open>current () { return this.nodes[this.currentIndex] }\<close>: an index outside the
  array reads \<^verbatim>\<open>undefined\<close>, here \<open>None\<close>.\<close>

definition current :: "'n Enumerator \<Rightarrow> 'n option" where
  "current e = (if currentIndex e < length (nodes e)
                then Some (nodes e ! currentIndex e) else None)"

text \<open>\<^verbatim>\<open>hasNext () { return this.currentIndex < this.nodes.length - 1 }\<close>; the
  subtraction is done on integers, \<open>0 - 1\<close> is \<open>-1\<close>.\<close>

definition hasNext :: "'n Enumerator \<Rightarrow> bool" where
  "hasNext e = (int (currentIndex e) < int (length (nodes e)) - 1)"

text \<open>\<^verbatim>\<open>reset () { this.currentIndex = 0 }\<close>\<close>

definition reset :: "'n Enumerator \<Rightarrow> 'n Enumerator" where
  "reset e = e\<lparr>currentIndex := 0\<rparr>"

text \<open>\<^verbatim>\<open>next ()\<close>: the returned flag and the enumerator after the call.\<close>

definition enum_next :: "'n Enumerator \<Rightarrow> bool \<times> 'n Enumerator" where
  "enum_next e = (if hasNext e then (True, e\<lparr>currentIndex := currentIndex e + 1\<rparr>)
                  else (False, e))"

section \<open>Behavior tree nodes\<close>

text \<open>
  The fields a Decorator instance carries besides its hooks and its child:
  \<^verbatim>\<open>should_skip\<close> (set to \<^verbatim>\<open>false\<close> by the constructor), \<^verbatim>\<open>_storedResult\<close> (used by
  \<^verbatim>\<open>delay\<close>, absent until first written) and \<^verbatim>\<open>done\<close> (used by \<^verbatim>\<open>until\<close>, absent
  until first written and only ever tested for truthiness, hence a flag here).
\<close>

record fields =
  should_skip :: bool
  storedResult :: jsval
  done_flag :: bool

definition new_fields :: fields where
  "new_fields = \<lparr>should_skip = False, storedResult = Undefined, done_flag = False\<rparr>"

text \<open>
  The four node classes. \<open>'s\<close> is the turn state (the object \<^verbatim>\<open>{oldStats, warrior}\<close>
  that \<^verbatim>\<open>playTurn\<close> builds), threaded through every call because leaf actions act on
  the warrior it carries.

  \<^item> \<open>Action name action\<close>;
  \<^item> \<open>Sequence name keepState children enumerator\<close> and
    \<open>Selector name keepState children enumerator\<close>: the enumerator's \<^verbatim>\<open>nodes\<close> array
    is the \<^verbatim>\<open>children\<close> array itself (\<^verbatim>\<open>new Enumerator(this.children)\<close>), so the node
    keeps the list once and the enumerator field holds \<open>None\<close> before the first
    \<^verbatim>\<open>init()\<close> and \<open>Some currentIndex\<close> afterwards;
  \<^item> \<open>Decorator name before after self node\<close>: \<open>self\<close> are the instance's mutable
    fields, which the hooks receive and may update; \<open>node\<close> is \<open>None\<close> until
    \<^verbatim>\<open>bind\<close>. Every \<^verbatim>\<open>before\<close> hook of the source returns the state object it was
    given, so \<^verbatim>\<open>newState\<close> and \<^verbatim>\<open>state\<close> are one object and one state is threaded.

  Leaf actions and hooks are functions that return; the exception the classes
  themselves can raise, calling \<^verbatim>\<open>tick\<close> on a missing child, is a result of its own.
\<close>

type_synonym 's before_hook = "'s \<Rightarrow> fields \<Rightarrow> 's \<times> fields"
type_synonym 's after_hook = "jsval \<Rightarrow> fields \<Rightarrow> 's \<Rightarrow> jsval \<times> fields \<times> 's"

datatype 's node =
    Action string "'s \<Rightarrow> jsval \<times> 's"
  | Sequence string bool "'s node list" "nat option"
  | Selector string bool "'s node list" "nat option"
  | Decorator string "'s before_hook" "'s after_hook" fields "'s node option"

text \<open>\<^verbatim>\<open>if (!this.enumerator || !this.keepState) { this.init() }\<close>, giving the
  enumerator the loop then works on.\<close>

definition init_enumerator :: "bool \<Rightarrow> 'n list \<Rightarrow> nat option \<Rightarrow> 'n Enumerator" where
  "init_enumerator keepState children enumerator =
     (case enumerator of
        None \<Rightarrow> new_Enumerator children
      | Some i \<Rightarrow> if \<not> keepState then new_Enumerator children
                  else \<lparr>nodes = children, currentIndex = i\<rparr>)"

text \<open>
  Instrumentation: every \<^verbatim>\<open>tick\<close> call is recorded as the path from the node first
  ticked down to the node called (child indices; the child of a decorator has index
  0) together with what the call gave back, in call order.
\<close>

type_synonym event = "nat list \<times> outcome"

definition under :: "nat \<Rightarrow> event list \<Rightarrow> event list" where
  "under i tr = map (\<lambda>(p, r). (i # p, r)) tr"

fun weight :: "'s node \<Rightarrow> nat" where
  "weight (Action _ _) = 1"
| "weight (Sequence _ _ cs _) = Suc (sum_list (map weight cs))"
| "weight (Selector _ _ cs _) = Suc (sum_list (map weight cs))"
| "weight (Decorator _ _ _ _ None) = 1"
| "weight (Decorator _ _ _ _ (Some n)) = Suc (weight n)"

definition rest_weight :: "'s node Enumerator \<Rightarrow> nat" where
  "rest_weight e = sum_list (map weight (drop (currentIndex e) (nodes e)))"

text \<open>
  \<^verbatim>\<open>tick\<close> of the four classes, with the \<^verbatim>\<open>do { ... } while (this.enumerator.next())\<close>
  loops of Sequence and Selector as \<open>seq_loop\<close> and \<open>sel_loop\<close>. Each returns what
  the call gave back, the node (or enumerator) after the call, the state after the
  call and the calls made. A child is updated in place in the array the enumerator
  walks.
\<close>

function tick :: "'s node \<Rightarrow> 's \<Rightarrow> outcome \<times> 's node \<times> 's \<times> event list"
  and seq_loop :: "'s node Enumerator \<Rightarrow> 's \<Rightarrow> outcome \<times> 's node Enumerator \<times> 's \<times> event list"
  and sel_loop :: "'s node Enumerator \<Rightarrow> 's \<Rightarrow> outcome \<times> 's node Enumerator \<times> 's \<times> event list"
where
  "tick (Action name action) state =
     (case action state of (result, state') \<Rightarrow>
        (Inr result, Action name action, state', [([], Inr result)]))"
| "tick (Sequence name keepState children enumerator) state =
     (let e = init_enumerator keepState children enumerator in
      if \<not> isStarted e
      then (Inr (Str Running), Sequence name keepState (nodes e) (Some (currentIndex e)), state,
            [([], Inr (Str Running))])
      else (case seq_loop e state of (out, e', state', tr) \<Rightarrow>
        (out, Sequence name keepState (nodes e') (Some (currentIndex e')), state',
         ([], out) # tr)))"
| "tick (Selector name keepState children enumerator) state =
     (let e = init_enumerator keepState children enumerator in
      if \<not> isStarted e
      then (Inr (Str Running), Selector name keepState (nodes e) (Some (currentIndex e)), state,
            [([], Inr (Str Running))])
      else (case sel_loop e state of (out, e', state', tr) \<Rightarrow>
        (out, Selector name keepState (nodes e') (Some (currentIndex e')), state',
         ([], out) # tr)))"
| "tick (Decorator name before after self node) state =
     (case before state self of (newState, self1) \<Rightarrow>
        (case node of
           None \<Rightarrow> (Inl TypeError, Decorator name before after self1 None, newState,
                    [([], Inl TypeError)])
         | Some n \<Rightarrow>
            (case tick n newState of
               (Inl err, n', state', tr) \<Rightarrow>
                 (Inl err, Decorator name before after self1 (Some n'), state',
                  ([], Inl err) # under 0 tr)
             | (Inr ogResult, n', state', tr) \<Rightarrow>
                 (case after ogResult self1 state' of (result, self2, state'') \<Rightarrow>
                    (Inr result, Decorator name before after self2 (Some n'), state'',
                     ([], Inr result) # under 0 tr)))))"
| "seq_loop e state =
     (case current e of
        None \<Rightarrow> (Inl TypeError, e, state, [])
      | Some child \<Rightarrow>
         (case tick child state of
            (Inl err, child', state', tr) \<Rightarrow>
              (Inl err, e\<lparr>nodes := (nodes e)[currentIndex e := child']\<rparr>, state',
               under (currentIndex e) tr)
          | (Inr status, child', state', tr) \<Rightarrow>
              (let e1 = e\<lparr>nodes := (nodes e)[currentIndex e := child']\<rparr> in
               if status \<noteq> Str Success
               then (Inr status, (if status = Str Failure then reset e1 else e1), state',
                     under (currentIndex e) tr)
               else (case enum_next e1 of
                       (True, e2) \<Rightarrow>
                         (case seq_loop e2 state' of (out, e3, state'', tr') \<Rightarrow>
                            (out, e3, state'', under (currentIndex e) tr @ tr'))
                     | (False, e2) \<Rightarrow>
                         (Inr status, reset e2, state', under (currentIndex e) tr)))))"
| "sel_loop e state =
     (case current e of
        None \<Rightarrow> (Inl TypeError, e, state, [])
      | Some child \<Rightarrow>
         (case tick child state of
            (Inl err, child', state', tr) \<Rightarrow>
              (Inl err, e\<lparr>nodes := (nodes e)[currentIndex e := child']\<rparr>, state',
               under (currentIndex e) tr)
          | (Inr status, child', state', tr) \<Rightarrow>
              (let e1 = e\<lparr>nodes := (nodes e)[currentIndex e := child']\<rparr> in
               if status = Str Running
               then (Inr status, e1, state', under (currentIndex e) tr)
               else if status = Str Success
               then (Inr status, reset e1, state', under (currentIndex e) tr)
               else (case enum_next e1 of
                       (True, e2) \<Rightarrow>
                         (case sel_loop e2 state' of (out, e3, state'', tr') \<Rightarrow>
                            (out, e3, state'', under (currentIndex e) tr @ tr'))
                     | (False, e2) \<Rightarrow>
                         (Inr Undefined, reset e2, state', under (currentIndex e) tr)))))"
  by pat_completeness auto
termination
proof -
  have weight_pos: "0 < weight n" for n :: "'a node"
    by (cases n rule: weight.cases) simp_all
  have drop_le: "sum_list (map weight (drop i cs)) \<le> sum_list (map weight cs)"
    for i and cs :: "'a node list"
  proof -
    have "sum_list (map weight (take i cs @ drop i cs))
          = sum_list (map weight (take i cs)) + sum_list (map weight (drop i cs))"
      by (simp del: append_take_drop_id)
    then show ?thesis by simp
  qed
  have init_le: "rest_weight (init_enumerator ks cs en) \<le> sum_list (map weight cs)"
    for ks en and cs :: "'a node list"
    by (simp add: rest_weight_def init_enumerator_def new_Enumerator_def drop_le
        split: option.split)
  have at_current: "rest_weight e
      = weight child + sum_list (map weight (drop (Suc (currentIndex e)) (nodes e)))"
    if "current e = Some child" for child and e :: "'a node Enumerator"
  proof -
    from that have "currentIndex e < length (nodes e)" and "child = nodes e ! currentIndex e"
      by (auto simp: current_def split: if_splits)
    then show ?thesis
      by (simp add: rest_weight_def Cons_nth_drop_Suc [symmetric])
  qed
  have after_next: "rest_weight e2 < rest_weight e"
    if "current e = Some child"
      and "(True, e2) = enum_next (e\<lparr>nodes := (nodes e)[currentIndex e := c']\<rparr>)"
    for child c' e2 and e :: "'a node Enumerator"
  proof -
    from that(2)
    have e2: "e2 = e\<lparr>nodes := (nodes e)[currentIndex e := c'],
                     currentIndex := Suc (currentIndex e)\<rparr>"
      by (auto simp: enum_next_def split: if_splits)
    have "rest_weight e2 = sum_list (map weight (drop (Suc (currentIndex e)) (nodes e)))"
      by (simp add: e2 rest_weight_def)
    with at_current [OF that(1)] weight_pos [of child] show ?thesis by simp
  qed
  show ?thesis
  proof (relation "measure (\<lambda>x. case x of
          Inl (n, s) \<Rightarrow> 2 * weight n
        | Inr (Inl (e, s)) \<Rightarrow> 2 * rest_weight e + 1
        | Inr (Inr (e, s)) \<Rightarrow> 2 * rest_weight e + 1)", goal_cases)
    case 1
    show ?case by simp
  next
    case (2 e keepState children enumerator name state)
    then show ?case using init_le [of keepState children enumerator] by simp
  next
    case (3 e keepState children enumerator name state)
    then show ?case using init_le [of keepState children enumerator] by simp
  next
    case (4 before state self newState self1 node n name after)
    then show ?case by simp
  next
    case (5 e state child)
    then show ?case using at_current [of e child] by simp
  next
    case 6
    then show ?case using after_next by simp
  next
    case (7 e state child)
    then show ?case using at_current [of e child] by simp
  next
    case 8
    then show ?case using after_next by simp
  qed
qed

declare tick.simps [simp del] seq_loop.simps [simp del] sel_loop.simps [simp del]

section \<open>Builders\<close>

text \<open>\<^verbatim>\<open>new Sequence(name, keepState)\<close>, \<^verbatim>\<open>new Selector(name, keepState)\<close>: no children,
  no enumerator yet.\<close>

definition new_Sequence :: "string \<Rightarrow> bool \<Rightarrow> 's node" where
  "new_Sequence name keepState = Sequence name keepState [] None"

definition new_Selector :: "string \<Rightarrow> bool \<Rightarrow> 's node" where
  "new_Selector name keepState = Selector name keepState [] None"

text \<open>\<^verbatim>\<open>addChild (child) { this.children.push(child); return this }\<close>, a method of
  Sequence and Selector only.\<close>

fun addChild :: "'s node \<Rightarrow> 's node \<Rightarrow> 's node" where
  "addChild (Sequence name keepState children enumerator) child =
     Sequence name keepState (children @ [child]) enumerator"
| "addChild (Selector name keepState children enumerator) child =
     Selector name keepState (children @ [child]) enumerator"

text \<open>The default hooks \<^verbatim>\<open>before = (x) => x\<close> and \<^verbatim>\<open>after = (x) => x\<close>, the
  constructor and \<^verbatim>\<open>bind\<close>.\<close>

definition default_before :: "'s before_hook" where
  "default_before state self = (state, self)"

definition default_after :: "'s after_hook" where
  "default_after result self state = (result, self, state)"

definition new_Decorator :: "string \<Rightarrow> 's before_hook \<Rightarrow> 's after_hook \<Rightarrow> 's node" where
  "new_Decorator name before after = Decorator name before after new_fields None"

fun bind :: "'s node \<Rightarrow> 's node \<Rightarrow> 's node" where
  "bind (Decorator name before after self _) node =
     Decorator name before after self (Some node)"

section \<open>The stock decorators\<close>

text \<open>\<^verbatim>\<open>not\<close>\<close>

definition not_after :: "'s after_hook" where
  "not_after result self state =
     (if result = Str Success then (Str Failure, self, state)
      else if result = Str Failure then (Str Success, self, state)
      else (result, self, state))"

definition not_node :: "'s node \<Rightarrow> 's node" where
  "not_node node = bind (new_Decorator ''not'' default_before not_after) node"

text \<open>
  \<^verbatim>\<open>delay\<close>. Its hook calls \<^verbatim>\<open>state.warrior.think(``)\<close>; the warrior is not part of
  the source, so the effect of that call on the turn state is the parameter
  \<open>think\<close>.
\<close>

definition delay_after :: "('s \<Rightarrow> 's) \<Rightarrow> 's after_hook" where
  "delay_after think result self state =
     (if truthy (storedResult self)
      then (let state' = think state;
                value = storedResult self
            in (value, self\<lparr>storedResult := Null, should_skip := False\<rparr>, state'))
      else (Str Running, self\<lparr>storedResult := result, should_skip := True\<rparr>, state))"

definition delay :: "('s \<Rightarrow> 's) \<Rightarrow> 's node \<Rightarrow> 's node" where
  "delay think node = bind (new_Decorator ''delay'' default_before (delay_after think)) node"

text \<open>
  \<^verbatim>\<open>until\<close>. The predicate is code of the caller's that is run on the turn state:
  it gives back a truth value and, like a leaf action, may call operations on the
  warrior on the way (the predicate of \<^verbatim>\<open>healIfLow\<close> calls \<^verbatim>\<open>warrior.health()\<close> and
  \<^verbatim>\<open>warrior.maxHealth()\<close>), so it returns the state it leaves as well.
\<close>

definition until_before :: "('s \<Rightarrow> bool \<times> 's) \<Rightarrow> 's before_hook" where
  "until_before pred state self =
     (case pred state of (done, state') \<Rightarrow>
        if done then (state', self\<lparr>should_skip := True, done_flag := True\<rparr>)
        else (state', self))"

definition until_after :: "'s after_hook" where
  "until_after result self state =
     (if result \<noteq> Str Failure
      then (if done_flag self
            then (Str Success, self\<lparr>should_skip := False, done_flag := False\<rparr>, state)
            else (Str Running, self, state))
      else (result, self, state))"

definition until :: "'s node \<Rightarrow> ('s \<Rightarrow> bool \<times> 's) \<Rightarrow> 's node" where
  "until node pred = bind (new_Decorator ''until'' (until_before pred) until_after) node"

section \<open>Notions used in the statements\<close>

text \<open>The calls a node made on its own children during one tick, in call order:
  the child's index and what its \<^verbatim>\<open>tick\<close> gave back.\<close>

fun child_ticks :: "event list \<Rightarrow> (nat \<times> outcome) list" where
  "child_ticks [] = []"
| "child_ticks (([k], r) # tr) = (k, r) # child_ticks tr"
| "child_ticks (_ # tr) = child_ticks tr"

text \<open>What ends the Selector loop at the child that gave it back: an exception,
  Running or Success. Anything else sends the loop on to \<^verbatim>\<open>next()\<close>.\<close>

definition sel_stops :: "outcome \<Rightarrow> bool" where
  "sel_stops r = (case r of Inl err \<Rightarrow> True | Inr v \<Rightarrow> v = Str Running \<or> v = Str Success)"

text \<open>The index at which a tick of a composite starts.\<close>

definition start_index :: "bool \<Rightarrow> nat option \<Rightarrow> nat" where
  "start_index keepState enumerator =
     (case enumerator of None \<Rightarrow> 0 | Some i \<Rightarrow> if keepState then i else 0)"

text \<open>The Cursor invariant: an enumerator that exists points into the child list.\<close>

definition cursor_in_range :: "'n list \<Rightarrow> nat option \<Rightarrow> bool" where
  "cursor_in_range children enumerator =
     (case enumerator of None \<Rightarrow> True | Some i \<Rightarrow> i < length children)"

text \<open>Projections of what \<open>tick\<close> returns.\<close>

definition result_of :: "outcome \<times> 's node \<times> 's \<times> event list \<Rightarrow> outcome" where
  "result_of x = fst x"

definition node_of :: "outcome \<times> 's node \<times> 's \<times> event list \<Rightarrow> 's node" where
  "node_of x = fst (snd x)"

definition state_of :: "outcome \<times> 's node \<times> 's \<times> event list \<Rightarrow> 's" where
  "state_of x = fst (snd (snd x))"

definition trace_of :: "outcome \<times> 's node \<times> 's \<times> event list \<Rightarrow> event list" where
  "trace_of x = snd (snd (snd x))"

text \<open>A tree assembled from the four classes with only the hooks the source
  defines: the defaults, \<^verbatim>\<open>not\<close>, \<^verbatim>\<open>delay\<close> and \<^verbatim>\<open>until\<close>.\<close>

definition stock_hooks :: "('s \<Rightarrow> 's) \<Rightarrow> 's before_hook \<Rightarrow> 's after_hook \<Rightarrow> bool" where
  "stock_hooks think before after =
     ((before = default_before \<and>
        (after = default_after \<or> after = not_after \<or> after = delay_after think)) \<or>
      (\<exists>pred. before = until_before pred \<and> after = until_after))"

fun stock :: "('s \<Rightarrow> 's) \<Rightarrow> 's node \<Rightarrow> bool" where
  "stock think (Action name action) = True"
| "stock think (Sequence name keepState children enumerator) = list_all (stock think) children"
| "stock think (Selector name keepState children enumerator) = list_all (stock think) children"
| "stock think (Decorator name before after self None) = stock_hooks think before after"
| "stock think (Decorator name before after self (Some n)) =
     (stock_hooks think before after \<and> stock think n)"

text \<open>The tree with every \<^verbatim>\<open>should_skip\<close> field put to \<^verbatim>\<open>false\<close>: two trees differ
  only in their \<^verbatim>\<open>should_skip\<close> fields when this maps them to the same tree.\<close>

fun forget_skip :: "'s node \<Rightarrow> 's node" where
  "forget_skip (Action name action) = Action name action"
| "forget_skip (Sequence name keepState children enumerator) =
     Sequence name keepState (map forget_skip children) enumerator"
| "forget_skip (Selector name keepState children enumerator) =
     Selector name keepState (map forget_skip children) enumerator"
| "forget_skip (Decorator name before after self None) =
     Decorator name before after (self\<lparr>should_skip := False\<rparr>) None"
| "forget_skip (Decorator name before after self (Some n)) =
     Decorator name before after (self\<lparr>should_skip := False\<rparr>) (Some (forget_skip n))"

text \<open>What the leaf actions of a tree do to the turn state.\<close>

fun leaf_ops :: "'s node \<Rightarrow> ('s \<Rightarrow> 's) set" where
  "leaf_ops (Action name action) = {\<lambda>s. snd (action s)}"
| "leaf_ops (Sequence name keepState children enumerator) = \<Union> (leaf_ops ` set children)"
| "leaf_ops (Selector name keepState children enumerator) = \<Union> (leaf_ops ` set children)"
| "leaf_ops (Decorator name before after self None) = {}"
| "leaf_ops (Decorator name before after self (Some n)) = leaf_ops n"

text \<open>What the hooks of one decorator may do to the turn state during a tick: run the
  predicate, when the \<^verbatim>\<open>before\<close> hook is that of \<^verbatim>\<open>until\<close>; call \<^verbatim>\<open>think\<close>, when the
  \<^verbatim>\<open>after\<close> hook is that of \<^verbatim>\<open>delay\<close> and the decorator holds a stored result.\<close>

definition hook_ops ::
  "('s \<Rightarrow> 's) \<Rightarrow> 's before_hook \<Rightarrow> 's after_hook \<Rightarrow> fields \<Rightarrow> ('s \<Rightarrow> 's) set" where
  "hook_ops think before after self =
     {f. \<exists>pred. before = until_before pred \<and> f = (\<lambda>s. snd (pred s))} \<union>
     {f. after = delay_after think \<and> truthy (storedResult self) \<and> f = think}"

text \<open>What a tree may do to the turn state during a tick: the leaf actions, the
  predicates of its \<^verbatim>\<open>until\<close> decorators, and \<^verbatim>\<open>think\<close> if it has a \<^verbatim>\<open>delay\<close> decorator
  that holds a stored result.\<close>

fun world_ops :: "('s \<Rightarrow> 's) \<Rightarrow> 's node \<Rightarrow> ('s \<Rightarrow> 's) set" where
  "world_ops think (Action name action) = {\<lambda>s. snd (action s)}"
| "world_ops think (Sequence name keepState children enumerator) =
     \<Union> (world_ops think ` set children)"
| "world_ops think (Selector name keepState children enumerator) =
     \<Union> (world_ops think ` set children)"
| "world_ops think (Decorator name before after self None) = hook_ops think before after self"
| "world_ops think (Decorator name before after self (Some n)) =
     hook_ops think before after self \<union> world_ops think n"

text \<open>\<open>world_calls ops s s'\<close>: the state \<open>s'\<close> comes from \<open>s\<close> by calls of operations
  among \<open>ops\<close>, one after another, and by nothing else.\<close>

inductive world_calls :: "('s \<Rightarrow> 's) set \<Rightarrow> 's \<Rightarrow> 's \<Rightarrow> bool"
  for ops :: "('s \<Rightarrow> 's) set" and s :: 's
where
  no_call: "world_calls ops s s"
| call: "world_calls ops s s' \<Longrightarrow> f \<in> ops \<Longrightarrow> world_calls ops s (f s')"

text \<open>Whatever state a tick of the node starts in, the state it ends in comes from it
  by calls among \<open>ops\<close> only.\<close>

definition only_calls :: "('s \<Rightarrow> 's) set \<Rightarrow> 's node \<Rightarrow> bool" where
  "only_calls ops n = (\<forall>s. world_calls ops s (state_of (tick n s)))"

text \<open>The state after ticking, one after another and each from the state the one
  before left, the children at the given indices.\<close>

fun thread :: "'s node list \<Rightarrow> 's \<Rightarrow> nat list \<Rightarrow> 's" where
  "thread children s [] = s"
| "thread children s (j # js) = thread children (state_of (tick (children ! j) s)) js"

text \<open>A tick of the node gives the same result, state and calls, and leaves the same
  tree up to \<^verbatim>\<open>should_skip\<close> fields, as a tick of any tree that differs from it in
  \<^verbatim>\<open>should_skip\<close> fields only.\<close>

definition skip_blind :: "'s node \<Rightarrow> bool" where
  "skip_blind t = (\<forall>t2 s. forget_skip t = forget_skip t2 \<longrightarrow>
     result_of (tick t s) = result_of (tick t2 s) \<and>
     state_of (tick t s) = state_of (tick t2 s) \<and>
     trace_of (tick t s) = trace_of (tick t2 s) \<and>
     forget_skip (node_of (tick t s)) = forget_skip (node_of (tick t2 s)))"

section \<open>Sample trees\<close>

text \<open>A warrior that records the name of every operation called on it; the turn
  state is that record.\<close>

type_synonym recording = "string list"

definition think_rec :: "recording \<Rightarrow> recording" where
  "think_rec w = w @ [''think'']"

text \<open>A leaf that calls one operation on the warrior and returns a fixed Status,
  as \<^verbatim>\<open>walk\<close>, \<^verbatim>\<open>fight\<close>, \<^verbatim>\<open>rest\<close> of the source do.\<close>

definition calling :: "string \<Rightarrow> Status \<Rightarrow> recording node" where
  "calling op st = Action op (\<lambda>w. (Str st, w @ [op]))"

text \<open>A leaf that calls nothing.\<close>

definition idle :: "recording node" where
  "idle = Action ''idle'' (\<lambda>w. (Str Success, w))"

text \<open>\<^verbatim>\<open>hasLowHealth\<close>, which calls \<^verbatim>\<open>warrior.maxHealth()\<close> and \<^verbatim>\<open>warrior.health()\<close>, on a
  warrior whose health is low; and the predicate of \<^verbatim>\<open>healIfLow\<close>, which calls
  \<^verbatim>\<open>warrior.health()\<close> and \<^verbatim>\<open>warrior.maxHealth()\<close>, on a warrior that is back at full
  health once it has rested twice.\<close>

definition has_low_health :: "recording node" where
  "has_low_health = Action ''lowHealth'' (\<lambda>w. (Str Success, w @ [''maxHealth'', ''health'']))"

definition full_health :: "recording \<Rightarrow> bool \<times> recording" where
  "full_health w =
     (2 \<le> length (filter (\<lambda>op. op = ''rest'') w), w @ [''health'', ''maxHealth''])"

text \<open>Trees of the source, on the recording warrior: \<^verbatim>\<open>moveForword\<close>,
  \<^verbatim>\<open>ifEnemeyFight\<close>, \<^verbatim>\<open>isCaptiveBehind\<close> with no captive in sight, \<^verbatim>\<open>delay(shoot())\<close>,
  a cut of \<^verbatim>\<open>shootIfBadGuy\<close>, \<^verbatim>\<open>until(rest(), ...)\<close> and \<^verbatim>\<open>healIfLow\<close>.\<close>

definition move_forword :: "recording node" where
  "move_forword =
     addChild (addChild (new_Sequence ''move_forword'' False)
       (calling ''feel'' Success)) (calling ''walk'' Success)"

definition if_enemy_fight :: "recording node" where
  "if_enemy_fight =
     addChild (addChild (new_Sequence ''if_enemy_fight'' False)
       (calling ''feel'' Failure)) (calling ''attack'' Success)"

definition is_captive_behind :: "recording node" where
  "is_captive_behind =
     addChild (addChild (addChild (new_Selector ''is captive behind'' False)
       (calling ''look'' Failure)) (calling ''look'' Failure)) (calling ''look'' Failure)"

definition delayed_shoot :: "recording node" where
  "delayed_shoot = delay think_rec (calling ''shoot'' Success)"

definition shoot_if_bad_guy :: "recording node" where
  "shoot_if_bad_guy =
     addChild (addChild (addChild (new_Sequence ''shoot the bad guys'' True)
       (calling ''look'' Success)) delayed_shoot) (calling ''walk'' Success)"

definition heal :: "recording node" where
  "heal = until (calling ''rest'' Success) full_health"

definition heal_if_low :: "recording node" where
  "heal_if_low =
     addChild (addChild (new_Sequence ''heal_if_low'' True) has_low_health) heal"

text \<open>A \<^verbatim>\<open>delay\<close> over a leaf that calls nothing, after its first tick; and a
  \<^verbatim>\<open>delay\<close> holding a result, with its \<^verbatim>\<open>should_skip\<close> field as given.\<close>

definition waiting :: "recording node" where
  "waiting = node_of (tick (delay think_rec idle) [])"

definition pending_shoot :: "bool \<Rightarrow> recording node" where
  "pending_shoot b =
     Decorator ''delay'' default_before (delay_after think_rec)
       \<lparr>should_skip = b, storedResult = Str Success, done_flag = False\<rparr>
       (Some (calling ''shoot'' Success))"

section \<open>Unfolding the loops\<close>

lemma nodes_init [simp]: "nodes (init_enumerator ks cs en) = cs"
  by (simp add: init_enumerator_def new_Enumerator_def split: option.split)

lemma currentIndex_init [simp]: "currentIndex (init_enumerator ks cs en) = start_index ks en"
  by (simp add: init_enumerator_def new_Enumerator_def start_index_def split: option.split)

lemma tick_Sequence:
  "tick (Sequence name ks cs en) s =
     (case seq_loop (init_enumerator ks cs en) s of (out, e', s', tr) \<Rightarrow>
        (out, Sequence name ks (nodes e') (Some (currentIndex e')), s', ([], out) # tr))"
  by (simp add: tick.simps isStarted_def current_member_def)

lemma tick_Selector:
  "tick (Selector name ks cs en) s =
     (case sel_loop (init_enumerator ks cs en) s of (out, e', s', tr) \<Rightarrow>
        (out, Selector name ks (nodes e') (Some (currentIndex e')), s', ([], out) # tr))"
  by (simp add: tick.simps isStarted_def current_member_def)

lemma hasNext_iff: "hasNext e \<longleftrightarrow> Suc (currentIndex e) < length (nodes e)"
  by (auto simp: hasNext_def)

lemma current_Some_iff: "current e = Some c \<longleftrightarrow> currentIndex e < length (nodes e) \<and> c = nodes e ! currentIndex e"
  by (auto simp: current_def)

lemma current_None_iff: "current e = None \<longleftrightarrow> length (nodes e) \<le> currentIndex e"
  by (auto simp: current_def)

text \<open>One pass through the body of the Sequence loop.\<close>

lemma seq_loop_none: "current e = None \<Longrightarrow> seq_loop e s = (Inl TypeError, e, s, [])"
  by (subst seq_loop.simps) simp

lemma seq_loop_stop:
  assumes "current e = Some c" "tick c s = (r, c', s', tr)"
    and "r \<noteq> Inr (Str Success) \<or> \<not> hasNext e"
  shows "seq_loop e s =
     (r, e\<lparr>nodes := (nodes e)[currentIndex e := c'],
           currentIndex := (if r = Inr (Str Failure) \<or> r = Inr (Str Success) then 0
                            else currentIndex e)\<rparr>,
      s', under (currentIndex e) tr)"
  using assms
  by (subst seq_loop.simps)
     (auto simp: enum_next_def reset_def hasNext_iff split: sum.splits)

lemma seq_loop_continue:
  assumes "current e = Some c" "tick c s = (Inr (Str Success), c', s', tr)" "hasNext e"
  shows "seq_loop e s =
     (case seq_loop (e\<lparr>nodes := (nodes e)[currentIndex e := c'],
                       currentIndex := Suc (currentIndex e)\<rparr>) s' of
        (out, e3, s'', tr') \<Rightarrow> (out, e3, s'', under (currentIndex e) tr @ tr'))"
  using assms
  by (subst seq_loop.simps) (auto simp: enum_next_def hasNext_iff)

lemma seq_loop_induct [consumes 1, case_names none stop continue]:
  assumes run: "seq_loop e s = (out, e', s', tr)"
    and none: "\<And>e s. current e = None \<Longrightarrow> P e s (Inl TypeError) e s []"
    and stop: "\<And>e s c r c' s' tr. current e = Some c \<Longrightarrow> tick c s = (r, c', s', tr) \<Longrightarrow>
       r \<noteq> Inr (Str Success) \<or> \<not> hasNext e \<Longrightarrow>
       P e s r (e\<lparr>nodes := (nodes e)[currentIndex e := c'],
                  currentIndex := (if r = Inr (Str Failure) \<or> r = Inr (Str Success) then 0
                                   else currentIndex e)\<rparr>)
             s' (under (currentIndex e) tr)"
    and continue: "\<And>e s c c' s' tr out e3 s'' tr'. current e = Some c \<Longrightarrow>
       tick c s = (Inr (Str Success), c', s', tr) \<Longrightarrow> hasNext e \<Longrightarrow>
       seq_loop (e\<lparr>nodes := (nodes e)[currentIndex e := c'],
                    currentIndex := Suc (currentIndex e)\<rparr>) s' = (out, e3, s'', tr') \<Longrightarrow>
       P (e\<lparr>nodes := (nodes e)[currentIndex e := c'],
             currentIndex := Suc (currentIndex e)\<rparr>) s' out e3 s'' tr' \<Longrightarrow>
       P e s out e3 s'' (under (currentIndex e) tr @ tr')"
  shows "P e s out e' s' tr"
  using run
proof (induction "length (nodes e) - currentIndex e" arbitrary: e s out e' s' tr rule: less_induct)
  case less
  show ?case
  proof (cases "current e")
    case None
    with less.prems none [OF None, of s] show ?thesis by (auto simp: seq_loop_none)
  next
    case (Some c)
    obtain r c1 s1 tr1 where t: "tick c s = (r, c1, s1, tr1)"
      by (cases "tick c s") auto
    show ?thesis
    proof (cases "r \<noteq> Inr (Str Success) \<or> \<not> hasNext e")
      case True
      from stop [OF Some t True] less.prems show ?thesis
        by (auto simp: seq_loop_stop [OF Some t True])
    next
      case False
      then have r: "r = Inr (Str Success)" and h: "hasNext e" by auto
      let ?e2 = "e\<lparr>nodes := (nodes e)[currentIndex e := c1], currentIndex := Suc (currentIndex e)\<rparr>"
      obtain out2 e3 s3 tr3 where l: "seq_loop ?e2 s1 = (out2, e3, s3, tr3)"
        by (cases "seq_loop ?e2 s1") auto
      have "length (nodes ?e2) - currentIndex ?e2 < length (nodes e) - currentIndex e"
        using h by (simp add: hasNext_iff)
      then have "P ?e2 s1 out2 e3 s3 tr3" using l by (rule less.hyps)
      from continue [OF Some t [unfolded r] h l this] less.prems show ?thesis
        by (auto simp: seq_loop_continue [OF Some t [unfolded r] h] l)
    qed
  qed
qed

text \<open>One pass through the body of the Selector loop.\<close>

lemma sel_loop_none: "current e = None \<Longrightarrow> sel_loop e s = (Inl TypeError, e, s, [])"
  by (subst sel_loop.simps) simp


lemma sel_loop_stop:
  assumes "current e = Some c" "tick c s = (r, c', s', tr)" "sel_stops r"
  shows "sel_loop e s =
     (r, e\<lparr>nodes := (nodes e)[currentIndex e := c'],
           currentIndex := (if r = Inr (Str Success) then 0 else currentIndex e)\<rparr>,
      s', under (currentIndex e) tr)"
  using assms
  by (subst sel_loop.simps) (auto simp: sel_stops_def reset_def split: sum.splits)

lemma sel_loop_exhausted:
  assumes "current e = Some c" "tick c s = (r, c', s', tr)" "\<not> sel_stops r" "\<not> hasNext e"
  shows "sel_loop e s =
     (Inr Undefined, e\<lparr>nodes := (nodes e)[currentIndex e := c'], currentIndex := 0\<rparr>,
      s', under (currentIndex e) tr)"
  using assms
  by (subst sel_loop.simps)
     (auto simp: sel_stops_def reset_def enum_next_def hasNext_iff split: sum.splits)

lemma sel_loop_continue:
  assumes "current e = Some c" "tick c s = (r, c', s', tr)" "\<not> sel_stops r" "hasNext e"
  shows "sel_loop e s =
     (case sel_loop (e\<lparr>nodes := (nodes e)[currentIndex e := c'],
                       currentIndex := Suc (currentIndex e)\<rparr>) s' of
        (out, e3, s'', tr') \<Rightarrow> (out, e3, s'', under (currentIndex e) tr @ tr'))"
  using assms
  by (subst sel_loop.simps)
     (auto simp: sel_stops_def enum_next_def hasNext_iff split: sum.splits)

lemma sel_loop_induct [consumes 1, case_names none stop exhausted continue]:
  assumes run: "sel_loop e s = (out, e', s', tr)"
    and none: "\<And>e s. current e = None \<Longrightarrow> P e s (Inl TypeError) e s []"
    and stop: "\<And>e s c r c' s' tr. current e = Some c \<Longrightarrow> tick c s = (r, c', s', tr) \<Longrightarrow>
       sel_stops r \<Longrightarrow>
       P e s r (e\<lparr>nodes := (nodes e)[currentIndex e := c'],
                  currentIndex := (if r = Inr (Str Success) then 0 else currentIndex e)\<rparr>)
             s' (under (currentIndex e) tr)"
    and exhausted: "\<And>e s c r c' s' tr. current e = Some c \<Longrightarrow> tick c s = (r, c', s', tr) \<Longrightarrow>
       \<not> sel_stops r \<Longrightarrow> \<not> hasNext e \<Longrightarrow>
       P e s (Inr Undefined) (e\<lparr>nodes := (nodes e)[currentIndex e := c'], currentIndex := 0\<rparr>)
             s' (under (currentIndex e) tr)"
    and continue: "\<And>e s c r c' s' tr out e3 s'' tr'. current e = Some c \<Longrightarrow>
       tick c s = (r, c', s', tr) \<Longrightarrow> \<not> sel_stops r \<Longrightarrow> hasNext e \<Longrightarrow>
       sel_loop (e\<lparr>nodes := (nodes e)[currentIndex e := c'],
                    currentIndex := Suc (currentIndex e)\<rparr>) s' = (out, e3, s'', tr') \<Longrightarrow>
       P (e\<lparr>nodes := (nodes e)[currentIndex e := c'],
             currentIndex := Suc (currentIndex e)\<rparr>) s' out e3 s'' tr' \<Longrightarrow>
       P e s out e3 s'' (under (currentIndex e) tr @ tr')"
  shows "P e s out e' s' tr"
  using run
proof (induction "length (nodes e) - currentIndex e" arbitrary: e s out e' s' tr rule: less_induct)
  case less
  show ?case
  proof (cases "current e")
    case None
    with less.prems none [OF None, of s] show ?thesis by (auto simp: sel_loop_none)
  next
    case (Some c)
    obtain r c1 s1 tr1 where t: "tick c s = (r, c1, s1, tr1)"
      by (cases "tick c s") auto
    show ?thesis
    proof (cases "sel_stops r")
      case True
      from stop [OF Some t True] less.prems show ?thesis
        by (auto simp: sel_loop_stop [OF Some t True])
    next
      case False
      show ?thesis
      proof (cases "hasNext e")
        case h: False
        from exhausted [OF Some t False h] less.prems show ?thesis
          by (auto simp: sel_loop_exhausted [OF Some t False h])
      next
        case h: True
        let ?e2 = "e\<lparr>nodes := (nodes e)[currentIndex e := c1],
                      currentIndex := Suc (currentIndex e)\<rparr>"
        obtain out2 e3 s3 tr3 where l: "sel_loop ?e2 s1 = (out2, e3, s3, tr3)"
          by (cases "sel_loop ?e2 s1") auto
        have "length (nodes ?e2) - currentIndex ?e2 < length (nodes e) - currentIndex e"
          using h by (simp add: hasNext_iff)
        then have "P ?e2 s1 out2 e3 s3 tr3" using l by (rule less.hyps)
        from continue [OF Some t False h l this] less.prems show ?thesis
          by (auto simp: sel_loop_continue [OF Some t False h] l)
      qed
    qed
  qed
qed

section \<open>Traces\<close>

lemma child_ticks_append: "child_ticks (xs @ ys) = child_ticks xs @ child_ticks ys"
  by (induction xs rule: child_ticks.induct) simp_all

lemma child_ticks_under_deep:
  "[] \<notin> fst ` set tr \<Longrightarrow> child_ticks (under i tr) = []"
proof (induction tr)
  case Nil
  show ?case by (simp add: under_def)
next
  case (Cons x tr)
  obtain p r where x: "x = (p, r)" by (cases x)
  with Cons.prems obtain j q where p: "p = j # q" by (cases p) auto
  from Cons have "child_ticks (under i tr) = []" by simp
  then show ?case by (simp add: under_def x p)
qed

lemma child_ticks_under_tick:
  "[] \<notin> fst ` set tr \<Longrightarrow> child_ticks (under i (([], out) # tr)) = [(i, out)]"
  using child_ticks_under_deep [of tr i] by (simp add: under_def)

lemma under_no_root: "[] \<notin> fst ` set (under i tr)"
  by (auto simp: under_def)

lemma seq_loop_no_root: "seq_loop e s = (out, e', s', tr) \<Longrightarrow> [] \<notin> fst ` set tr"
  by (induction rule: seq_loop_induct) (auto simp: under_def)

lemma sel_loop_no_root: "sel_loop e s = (out, e', s', tr) \<Longrightarrow> [] \<notin> fst ` set tr"
  by (induction rule: sel_loop_induct) (auto simp: under_def)

text \<open>The trace of a tick starts with the call itself and its result; everything
  after it lies below.\<close>

lemma tick_trace:
  assumes "tick n s = (out, n', s', tr)"
  obtains tr' where "tr = ([], out) # tr'" "[] \<notin> fst ` set tr'"
proof (cases n)
  case (Action name action)
  with assms have "tr = ([], out) # []" by (auto simp: tick.simps split: prod.splits)
  then show ?thesis using that by simp
next
  case (Sequence name ks cs en)
  with assms seq_loop_no_root [of "init_enumerator ks cs en" s] show ?thesis
    using that by (auto simp: tick_Sequence split: prod.splits)
next
  case (Selector name ks cs en)
  with assms sel_loop_no_root [of "init_enumerator ks cs en" s] show ?thesis
    using that by (auto simp: tick_Selector split: prod.splits)
next
  case (Decorator name before after self node)
  with assms under_no_root show ?thesis
    using that by (auto simp: tick.simps split: prod.splits option.splits sum.splits)
qed

lemma child_ticks_child:
  "tick c s = (r, c', s', tr) \<Longrightarrow> child_ticks (under i tr) = [(i, r)]"
  by (erule tick_trace) (simp add: child_ticks_under_tick)

section \<open>What one traversal does\<close>

lemma seq_loop_length:
  "seq_loop e s = (out, e', s', tr) \<Longrightarrow> length (nodes e') = length (nodes e)"
  by (induction rule: seq_loop_induct) simp_all

lemma sel_loop_length:
  "sel_loop e s = (out, e', s', tr) \<Longrightarrow> length (nodes e') = length (nodes e)"
  by (induction rule: sel_loop_induct) simp_all

lemma seq_loop_empty:
  "seq_loop e s = (out, e', s', tr) \<Longrightarrow> current e = None \<Longrightarrow> out = Inl TypeError \<and> tr = []"
  by (simp add: seq_loop_none)

lemma sel_loop_empty:
  "sel_loop e s = (out, e', s', tr) \<Longrightarrow> current e = None \<Longrightarrow> out = Inl TypeError \<and> tr = []"
  by (simp add: sel_loop_none)

text \<open>
  A Sequence traversal that finds a current child ticks the children from the cursor up
  to some child \<open>k\<close>, in order and once each; all before \<open>k\<close> returned Success; what
  child \<open>k\<close> gave back is what the traversal gives back; the cursor ends at 0 after
  Failure or Success and at \<open>k\<close> otherwise; Success comes from the last child only.
\<close>

lemma seq_loop_run:
  assumes "seq_loop e s = (out, e', s', tr)" and "current e \<noteq> None"
  shows "\<exists>k. map fst (child_ticks tr) = [currentIndex e ..< Suc k] \<and> currentIndex e \<le> k \<and>
           k < length (nodes e) \<and> snd (last (child_ticks tr)) = out \<and>
           (\<forall>x \<in> set (butlast (child_ticks tr)). snd x = Inr (Str Success)) \<and>
           currentIndex e' = (if out = Inr (Str Failure) \<or> out = Inr (Str Success) then 0 else k) \<and>
           (out = Inr (Str Success) \<longrightarrow> Suc k = length (nodes e))"
  using assms
proof (induction rule: seq_loop_induct)
  case (none e s)
  then show ?case by simp
next
  case (stop e s c r c' s' tr)
  from stop(1) have lt: "currentIndex e < length (nodes e)" by (simp add: current_Some_iff)
  have ct: "child_ticks (under (currentIndex e) tr) = [(currentIndex e, r)]"
    using stop(2) by (rule child_ticks_child)
  show ?case
  proof (intro exI [of _ "currentIndex e"] conjI)
    show "r = Inr (Str Success) \<longrightarrow> Suc (currentIndex e) = length (nodes e)"
      using stop(3) lt by (auto simp: hasNext_iff)
  qed (use lt in \<open>simp_all add: ct\<close>)
next
  case (continue e s c c' s' tr out e3 s'' tr')
  let ?i = "currentIndex e"
  let ?e2 = "e\<lparr>nodes := (nodes e)[?i := c'], currentIndex := Suc ?i\<rparr>"
  have ct: "child_ticks (under ?i tr) = [(?i, Inr (Str Success))]"
    using continue(2) by (rule child_ticks_child)
  have "current ?e2 \<noteq> None"
    using continue(3) by (simp add: current_None_iff hasNext_iff)
  with continue.IH obtain k where
    k: "map fst (child_ticks tr') = [Suc ?i ..< Suc k]" "Suc ?i \<le> k" "k < length (nodes e)"
       "snd (last (child_ticks tr')) = out"
       "\<forall>x \<in> set (butlast (child_ticks tr')). snd x = Inr (Str Success)"
       "currentIndex e3 = (if out = Inr (Str Failure) \<or> out = Inr (Str Success) then 0 else k)"
       "out = Inr (Str Success) \<longrightarrow> Suc k = length (nodes e)"
    by auto
  from k(1,2) have ne: "child_ticks tr' \<noteq> []" by auto
  show ?case
  proof (intro exI [of _ k] conjI)
    show "map fst (child_ticks (under ?i tr @ tr')) = [?i ..< Suc k]"
      using k(1,2) by (simp add: child_ticks_append ct upt_conv_Cons)
    show "\<forall>x \<in> set (butlast (child_ticks (under ?i tr @ tr'))). snd x = Inr (Str Success)"
      using k(5) ne by (simp add: child_ticks_append ct)
    show "snd (last (child_ticks (under ?i tr @ tr'))) = out"
      using k(4) ne by (simp add: child_ticks_append ct)
  qed (use k in simp_all)
qed

text \<open>
  The same for a Selector traversal: children from the cursor up to \<open>k\<close>; all before
  \<open>k\<close> returned something other than Running, Success or an exception; the traversal
  gives back what child \<open>k\<close> gave back when that stops the loop, and undefined when
  child \<open>k\<close> is the last child and did not stop it.
\<close>

lemma sel_loop_run:
  assumes "sel_loop e s = (out, e', s', tr)" and "current e \<noteq> None"
  shows "\<exists>k. map fst (child_ticks tr) = [currentIndex e ..< Suc k] \<and> currentIndex e \<le> k \<and>
           k < length (nodes e) \<and>
           (\<forall>x \<in> set (butlast (child_ticks tr)). \<not> sel_stops (snd x)) \<and>
           (sel_stops (snd (last (child_ticks tr))) \<longrightarrow>
              snd (last (child_ticks tr)) = out \<and>
              currentIndex e' = (if out = Inr (Str Success) then 0 else k)) \<and>
           (\<not> sel_stops (snd (last (child_ticks tr))) \<longrightarrow>
              out = Inr Undefined \<and> currentIndex e' = 0 \<and> Suc k = length (nodes e))"
  using assms
proof (induction rule: sel_loop_induct)
  case (none e s)
  then show ?case by simp
next
  case (stop e s c r c' s' tr)
  from stop(1) have lt: "currentIndex e < length (nodes e)" by (simp add: current_Some_iff)
  have ct: "child_ticks (under (currentIndex e) tr) = [(currentIndex e, r)]"
    using stop(2) by (rule child_ticks_child)
  show ?case
    by (intro exI [of _ "currentIndex e"] conjI) (use lt stop(3) in \<open>simp_all add: ct\<close>)
next
  case (exhausted e s c r c' s' tr)
  from exhausted(1) have lt: "currentIndex e < length (nodes e)" by (simp add: current_Some_iff)
  have ct: "child_ticks (under (currentIndex e) tr) = [(currentIndex e, r)]"
    using exhausted(2) by (rule child_ticks_child)
  show ?case
    by (intro exI [of _ "currentIndex e"] conjI)
       (use lt exhausted(3,4) in \<open>simp_all add: ct hasNext_iff\<close>)
next
  case (continue e s c r c' s' tr out e3 s'' tr')
  let ?i = "currentIndex e"
  let ?e2 = "e\<lparr>nodes := (nodes e)[?i := c'], currentIndex := Suc ?i\<rparr>"
  have ct: "child_ticks (under ?i tr) = [(?i, r)]"
    using continue(2) by (rule child_ticks_child)
  have "current ?e2 \<noteq> None"
    using continue(4) by (simp add: current_None_iff hasNext_iff)
  with continue.IH obtain k where
    k: "map fst (child_ticks tr') = [Suc ?i ..< Suc k]" "Suc ?i \<le> k" "k < length (nodes e)"
       "\<forall>x \<in> set (butlast (child_ticks tr')). \<not> sel_stops (snd x)"
       "sel_stops (snd (last (child_ticks tr'))) \<longrightarrow>
          snd (last (child_ticks tr')) = out \<and>
          currentIndex e3 = (if out = Inr (Str Success) then 0 else k)"
       "\<not> sel_stops (snd (last (child_ticks tr'))) \<longrightarrow>
          out = Inr Undefined \<and> currentIndex e3 = 0 \<and> Suc k = length (nodes e)"
    by auto
  from k(1,2) have ne: "child_ticks tr' \<noteq> []" by auto
  show ?case
  proof (intro exI [of _ k] conjI)
    show "map fst (child_ticks (under ?i tr @ tr')) = [?i ..< Suc k]"
      using k(1,2) by (simp add: child_ticks_append ct upt_conv_Cons)
    show "\<forall>x \<in> set (butlast (child_ticks (under ?i tr @ tr'))). \<not> sel_stops (snd x)"
      using k(4) ne continue(3) by (simp add: child_ticks_append ct)
    show "sel_stops (snd (last (child_ticks (under ?i tr @ tr')))) \<longrightarrow>
             snd (last (child_ticks (under ?i tr @ tr'))) = out \<and>
             currentIndex e3 = (if out = Inr (Str Success) then 0 else k)"
      using k(5) ne by (simp add: child_ticks_append ct)
    show "\<not> sel_stops (snd (last (child_ticks (under ?i tr @ tr')))) \<longrightarrow>
             out = Inr Undefined \<and> currentIndex e3 = 0 \<and> Suc k = length (nodes e)"
      using k(6) ne by (simp add: child_ticks_append ct)
  qed (use k in simp_all)
qed

text \<open>A tick of a composite is one run of its loop from the starting index.\<close>

lemma child_ticks_root [simp]: "child_ticks (([], out) # tr) = child_ticks tr"
  by simp

lemma tick_SequenceD:
  assumes "tick (Sequence name ks cs en) s = (out, n', s', tr)"
  obtains e' trl where "seq_loop (init_enumerator ks cs en) s = (out, e', s', trl)"
    "n' = Sequence name ks (nodes e') (Some (currentIndex e'))" "tr = ([], out) # trl"
  using assms by (auto simp: tick_Sequence split: prod.splits)

lemma tick_SelectorD:
  assumes "tick (Selector name ks cs en) s = (out, n', s', tr)"
  obtains e' trl where "sel_loop (init_enumerator ks cs en) s = (out, e', s', trl)"
    "n' = Selector name ks (nodes e') (Some (currentIndex e'))" "tr = ([], out) # trl"
  using assms by (auto simp: tick_Selector split: prod.splits)

lemma current_init_None:
  "current (init_enumerator ks cs en) = None \<longleftrightarrow> length cs \<le> start_index ks en"
  by (simp add: current_None_iff)

lemma start_index_in_range:
  "cs \<noteq> [] \<Longrightarrow> cursor_in_range cs en \<Longrightarrow> start_index ks en < length cs"
  by (auto simp: cursor_in_range_def start_index_def split: option.splits)

lemma last_in_set_butlast:
  "x \<in> set xs \<Longrightarrow> x \<noteq> last xs \<Longrightarrow> x \<in> set (butlast xs)"
  by (induction xs) (auto split: if_splits)

text \<open>The Cursor invariant holds of a composite as built, and a tick of a composite
  with children keeps it.\<close>

lemma new_cursor_in_range: "cursor_in_range children None"
  by (simp add: cursor_in_range_def)

lemma tick_keeps_cursor_in_range:
  assumes "cs \<noteq> []" and "cursor_in_range cs en"
  shows "tick (Sequence name ks cs en) s = (out, n', s', tr) \<Longrightarrow>
           \<exists>cs' i. n' = Sequence name ks cs' (Some i) \<and> length cs' = length cs \<and>
                    cursor_in_range cs' (Some i)"
    and "tick (Selector name ks cs en) s = (out, n', s', tr) \<Longrightarrow>
           \<exists>cs' i. n' = Selector name ks cs' (Some i) \<and> length cs' = length cs \<and>
                    cursor_in_range cs' (Some i)"
proof -
  let ?e = "init_enumerator ks cs en"
  have cur: "current ?e \<noteq> None"
    using start_index_in_range [OF assms, of ks] by (simp add: current_init_None)
  {
    assume "tick (Sequence name ks cs en) s = (out, n', s', tr)"
    then obtain e' trl where run: "seq_loop ?e s = (out, e', s', trl)"
      and n': "n' = Sequence name ks (nodes e') (Some (currentIndex e'))"
      by (rule tick_SequenceD)
    from seq_loop_run [OF run cur] obtain k where "k < length cs"
      "currentIndex e' = (if out = Inr (Str Failure) \<or> out = Inr (Str Success) then 0 else k)"
      by auto
    then have "currentIndex e' < length cs" using assms(1) by (simp split: if_splits)
    with n' seq_loop_length [OF run]
    show "\<exists>cs' i. n' = Sequence name ks cs' (Some i) \<and> length cs' = length cs \<and>
                    cursor_in_range cs' (Some i)"
      by (simp add: cursor_in_range_def)
  next
    assume "tick (Selector name ks cs en) s = (out, n', s', tr)"
    then obtain e' trl where run: "sel_loop ?e s = (out, e', s', trl)"
      and n': "n' = Selector name ks (nodes e') (Some (currentIndex e'))"
      by (rule tick_SelectorD)
    from sel_loop_run [OF run cur] obtain k where "k < length cs"
      "sel_stops (snd (last (child_ticks trl))) \<longrightarrow>
         currentIndex e' = (if out = Inr (Str Success) then 0 else k)"
      "\<not> sel_stops (snd (last (child_ticks trl))) \<longrightarrow> currentIndex e' = 0"
      by auto
    then have "currentIndex e' < length cs"
      using assms(1) by (cases "sel_stops (snd (last (child_ticks trl)))") (simp_all split: if_splits)
    with n' sel_loop_length [OF run]
    show "\<exists>cs' i. n' = Selector name ks cs' (Some i) \<and> length cs' = length cs \<and>
                    cursor_in_range cs' (Some i)"
      by (simp add: cursor_in_range_def)
  }
qed

text \<open>Everything needed to run a tick on a sample tree.\<close>

lemmas run_defs = tick.simps seq_loop.simps sel_loop.simps init_enumerator_def new_Enumerator_def
  isStarted_def current_member_def current_def enum_next_def hasNext_def reset_def under_def
  new_Sequence_def new_Selector_def new_Decorator_def new_fields_def default_before_def
  default_after_def not_after_def not_node_def delay_after_def delay_def until_before_def
  until_after_def until_def calling_def idle_def think_rec_def full_health_def has_low_health_def
  result_of_def node_of_def state_of_def trace_of_def

section \<open>Sequence\<close>

text \<open>
  C3. A Sequence with at least one child and its cursor inside the child list is ticked,
  and every child ticked in that traversal returns Success. Then the tick returns
  Success; it returns once (its own call is the only call at the root of the trace);
  the children ticked are those from the starting index to the last child, in order,
  the last child being the last one ticked; and the Sequence is left with its
  enumerator at index 0 over as many children as before.
\<close>

theorem Sequence_all_Success:
  assumes "children \<noteq> []"
    and "cursor_in_range children enumerator"
    and "tick (Sequence name keepState children enumerator) state = (out, n', state', tr)"
    and "\<forall>x \<in> set (child_ticks tr). snd x = Inr (Str Success)"
  shows "out = Inr (Str Success) \<and>
         length (filter (\<lambda>ev. fst ev = []) tr) = 1 \<and>
         map fst (child_ticks tr) = [start_index keepState enumerator ..< length children] \<and>
         fst (last (child_ticks tr)) = length children - 1 \<and>
         (\<exists>children'. n' = Sequence name keepState children' (Some 0) \<and>
                       length children' = length children)"
proof -
  let ?e = "init_enumerator keepState children enumerator"
  from assms(3) obtain e' trl where
    run: "seq_loop ?e state = (out, e', state', trl)"
    and n': "n' = Sequence name keepState (nodes e') (Some (currentIndex e'))"
    and tr: "tr = ([], out) # trl"
    by (rule tick_SequenceD)
  have cur: "current ?e \<noteq> None"
    using start_index_in_range [OF assms(1,2), of keepState] by (simp add: current_init_None)
  from seq_loop_run [OF run cur] obtain k where
    k: "map fst (child_ticks trl) = [start_index keepState enumerator ..< Suc k]"
       "start_index keepState enumerator \<le> k"
       "snd (last (child_ticks trl)) = out"
       "currentIndex e' = (if out = Inr (Str Failure) \<or> out = Inr (Str Success) then 0 else k)"
       "out = Inr (Str Success) \<longrightarrow> Suc k = length children"
    by auto
  from k(1,2) have ne: "child_ticks trl \<noteq> []" by auto
  then have "last (child_ticks trl) \<in> set (child_ticks trl)" by simp
  with assms(4) k(3) have out: "out = Inr (Str Success)" by (simp add: tr)
  with k(5) have full: "Suc k = length children" by simp
  have "last (map fst (child_ticks trl)) = k" using k(1,2) by simp
  then have lastk: "fst (last (child_ticks trl)) = k" using ne by (simp add: last_map)
  have once: "length (filter (\<lambda>ev. fst ev = []) tr) = 1"
  proof -
    from seq_loop_no_root [OF run] have "\<forall>ev \<in> set trl. fst ev \<noteq> []"
      by (metis image_eqI)
    then have "filter (\<lambda>ev. fst ev = []) trl = []"
      by (simp add: filter_empty_conv)
    then show ?thesis by (simp add: tr)
  qed
  show ?thesis
  proof (intro conjI)
    show "\<exists>children'. n' = Sequence name keepState children' (Some 0) \<and>
                       length children' = length children"
      using n' k(4) out seq_loop_length [OF run] by simp
  qed (use out once k(1) full lastk in \<open>simp_all add: tr\<close>)
qed

theorem Sequence_all_Success_witness:
  "result_of (tick move_forword []) = Inr (Str Success) \<and>
   map fst (child_ticks (trace_of (tick move_forword []))) = [0, 1] \<and>
   fst (last (child_ticks (trace_of (tick move_forword [])))) = 1 \<and>
   state_of (tick move_forword []) = [''feel'', ''walk'']"
proof -
  let ?cs = "[calling ''feel'' Success, calling ''walk'' Success]"
  have run: "tick (Sequence ''move_forword'' False ?cs None) [] =
      (Inr (Str Success), Sequence ''move_forword'' False ?cs (Some 0), [''feel'', ''walk''],
       [([], Inr (Str Success)), ([0], Inr (Str Success)), ([1], Inr (Str Success))])"
    by (simp add: run_defs)
  have h1: "?cs \<noteq> []" by simp
  have h2: "cursor_in_range ?cs None" by (simp add: cursor_in_range_def)
  have h4: "\<forall>x \<in> set (child_ticks [([], Inr (Str Success)), ([0], Inr (Str Success)),
      ([1], Inr (Str Success))]). snd x = Inr (Str Success)"
    by simp
  have mf: "move_forword = Sequence ''move_forword'' False ?cs None"
    by (simp add: move_forword_def new_Sequence_def)
  from Sequence_all_Success [OF h1 h2 run h4] show ?thesis
    by (simp add: mf run result_of_def trace_of_def state_of_def start_index_def)
qed

text \<open>
  C4. During one tick of a Sequence, a child whose tick gave back Failure or Running is
  the last child ticked in that traversal: the Sequence returns that same result, and
  the children ticked are exactly those from the starting index up to that child, so
  no child after it is ticked.
\<close>

theorem Sequence_short_circuit:
  assumes "tick (Sequence name keepState children enumerator) state = (out, n', state', tr)"
    and "(k, r) \<in> set (child_ticks tr)"
    and "r = Inr (Str Failure) \<or> r = Inr (Str Running)"
  shows "out = r \<and> last (child_ticks tr) = (k, r) \<and>
         map fst (child_ticks tr) = [start_index keepState enumerator ..< Suc k]"
proof -
  let ?e = "init_enumerator keepState children enumerator"
  from assms(1) obtain e' trl where
    run: "seq_loop ?e state = (out, e', state', trl)"
    and tr: "tr = ([], out) # trl"
    by (rule tick_SequenceD)
  from assms(2) have mem: "(k, r) \<in> set (child_ticks trl)" by (simp add: tr)
  have cur: "current ?e \<noteq> None"
  proof
    assume "current ?e = None"
    with seq_loop_empty [OF run] mem show False by simp
  qed
  from seq_loop_run [OF run cur] obtain j where
    j: "map fst (child_ticks trl) = [start_index keepState enumerator ..< Suc j]"
       "start_index keepState enumerator \<le> j"
       "snd (last (child_ticks trl)) = out"
       "\<forall>x \<in> set (butlast (child_ticks trl)). snd x = Inr (Str Success)"
    by auto
  have is_last: "(k, r) = last (child_ticks trl)"
  proof (rule ccontr)
    assume "(k, r) \<noteq> last (child_ticks trl)"
    with mem have "(k, r) \<in> set (butlast (child_ticks trl))" by (rule last_in_set_butlast)
    with j(4) assms(3) show False by auto
  qed
  from j(1,2) have ne: "child_ticks trl \<noteq> []" by auto
  have "last (map fst (child_ticks trl)) = j" using j(1,2) by simp
  then have "fst (last (child_ticks trl)) = j" using ne by (simp add: last_map)
  with is_last have "k = j" by (metis fst_conv)
  with j(1,3) is_last show ?thesis by (simp add: tr) (metis snd_conv)
qed

theorem Sequence_short_circuit_witness:
  "result_of (tick if_enemy_fight []) = Inr (Str Failure) \<and>
   last (child_ticks (trace_of (tick if_enemy_fight []))) = (0, Inr (Str Failure)) \<and>
   map fst (child_ticks (trace_of (tick if_enemy_fight []))) = [0] \<and>
   state_of (tick if_enemy_fight []) = [''feel'']"
proof -
  let ?cs = "[calling ''feel'' Failure, calling ''attack'' Success]"
  have run: "tick (Sequence ''if_enemy_fight'' False ?cs None) [] =
      (Inr (Str Failure), Sequence ''if_enemy_fight'' False ?cs (Some 0), [''feel''],
       [([], Inr (Str Failure)), ([0], Inr (Str Failure))])"
    by (simp add: run_defs)
  have h2: "(0, Inr (Str Failure)) \<in> set (child_ticks [([], Inr (Str Failure)),
      ([0], Inr (Str Failure))])"
    by simp
  have h3: "Inr (Str Failure) = Inr (Str Failure) \<or> Inr (Str Failure) = Inr (Str Running)"
    by simp
  have mf: "if_enemy_fight = Sequence ''if_enemy_fight'' False ?cs None"
    by (simp add: if_enemy_fight_def new_Sequence_def)
  from Sequence_short_circuit [OF run h2 h3] show ?thesis
    by (simp add: mf run result_of_def trace_of_def state_of_def start_index_def)
qed

section \<open>Resumption\<close>

text \<open>
  C2. A Sequence or Selector with \<^verbatim>\<open>keepState = true\<close> whose tick returns Running got
  that Running from the child \<open>k\<close> it ticked last, and its next tick, in whatever
  state it is made, ticks child \<open>k\<close> before any other child.
\<close>

theorem keepState_resumes:
  assumes "n = Sequence name True children enumerator \<or>
           n = Selector name True children enumerator"
    and "tick n state = (Inr (Str Running), n1, state1, tr1)"
    and "tick n1 state2 = (out2, n2, state3, tr2)"
  shows "\<exists>k. last (child_ticks tr1) = (k, Inr (Str Running)) \<and> child_ticks tr1 \<noteq> [] \<and>
             child_ticks tr2 \<noteq> [] \<and> fst (hd (child_ticks tr2)) = k"
  using assms(1)
proof
  assume n: "n = Sequence name True children enumerator"
  let ?e = "init_enumerator True children enumerator"
  from assms(2) [unfolded n] obtain e1 trl where
    run: "seq_loop ?e state = (Inr (Str Running), e1, state1, trl)"
    and n1: "n1 = Sequence name True (nodes e1) (Some (currentIndex e1))"
    and tr1: "tr1 = ([], Inr (Str Running)) # trl"
    by (rule tick_SequenceD)
  have cur: "current ?e \<noteq> None"
    using seq_loop_empty [OF run] by auto
  from seq_loop_run [OF run cur] obtain k where
    k: "map fst (child_ticks trl) = [start_index True enumerator ..< Suc k]"
       "start_index True enumerator \<le> k" "k < length children"
       "snd (last (child_ticks trl)) = Inr (Str Running)"
       "currentIndex e1 = k"
    by auto
  from k(1,2) have ne: "child_ticks trl \<noteq> []" by auto
  have "last (map fst (child_ticks trl)) = k" using k(1,2) by simp
  then have "fst (last (child_ticks trl)) = k" using ne by (simp add: last_map)
  with k(4) have last1: "last (child_ticks trl) = (k, Inr (Str Running))"
    by (metis prod.collapse)
  let ?e' = "init_enumerator True (nodes e1) (Some k)"
  from assms(3) [unfolded n1 k(5)] obtain e2 trl2 where
    run2: "seq_loop ?e' state2 = (out2, e2, state3, trl2)"
    and tr2: "tr2 = ([], out2) # trl2"
    by (rule tick_SequenceD)
  have cur2: "current ?e' \<noteq> None"
    using k(3) seq_loop_length [OF run] by (simp add: current_None_iff start_index_def)
  from seq_loop_run [OF run2 cur2] obtain j where
    j: "map fst (child_ticks trl2) = [k ..< Suc j]" "k \<le> j"
    by (auto simp: start_index_def)
  from j have ne2: "child_ticks trl2 \<noteq> []" by auto
  have "hd (map fst (child_ticks trl2)) = k" using j by (simp add: upt_conv_Cons del: upt_Suc)
  then have "fst (hd (child_ticks trl2)) = k" using ne2 by (simp add: hd_map)
  with last1 ne ne2 show ?thesis by (simp add: tr1 tr2)
next
  assume n: "n = Selector name True children enumerator"
  let ?e = "init_enumerator True children enumerator"
  from assms(2) [unfolded n] obtain e1 trl where
    run: "sel_loop ?e state = (Inr (Str Running), e1, state1, trl)"
    and n1: "n1 = Selector name True (nodes e1) (Some (currentIndex e1))"
    and tr1: "tr1 = ([], Inr (Str Running)) # trl"
    by (rule tick_SelectorD)
  have cur: "current ?e \<noteq> None"
    using sel_loop_empty [OF run] by auto
  have "sel_stops (Inr (Str Running))" "\<not> sel_stops (Inr Undefined)"
    by (simp_all add: sel_stops_def)
  with sel_loop_run [OF run cur] obtain k where
    k: "map fst (child_ticks trl) = [start_index True enumerator ..< Suc k]"
       "start_index True enumerator \<le> k" "k < length children"
       "snd (last (child_ticks trl)) = Inr (Str Running)" "currentIndex e1 = k"
    by auto
  note k4 = k(4,5)
  from k(1,2) have ne: "child_ticks trl \<noteq> []" by auto
  have "last (map fst (child_ticks trl)) = k" using k(1,2) by simp
  then have "fst (last (child_ticks trl)) = k" using ne by (simp add: last_map)
  with k4(1) have last1: "last (child_ticks trl) = (k, Inr (Str Running))"
    by (metis prod.collapse)
  let ?e' = "init_enumerator True (nodes e1) (Some k)"
  from assms(3) [unfolded n1 k4(2)] obtain e2 trl2 where
    run2: "sel_loop ?e' state2 = (out2, e2, state3, trl2)"
    and tr2: "tr2 = ([], out2) # trl2"
    by (rule tick_SelectorD)
  have cur2: "current ?e' \<noteq> None"
    using k(3) sel_loop_length [OF run] by (simp add: current_None_iff start_index_def)
  from sel_loop_run [OF run2 cur2] obtain j where
    j: "map fst (child_ticks trl2) = [k ..< Suc j]" "k \<le> j"
    by (auto simp: start_index_def)
  from j have ne2: "child_ticks trl2 \<noteq> []" by auto
  have "hd (map fst (child_ticks trl2)) = k" using j by (simp add: upt_conv_Cons del: upt_Suc)
  then have "fst (hd (child_ticks trl2)) = k" using ne2 by (simp add: hd_map)
  with last1 ne ne2 show ?thesis by (simp add: tr1 tr2)
qed

theorem keepState_resumes_witness:
  "result_of (tick shoot_if_bad_guy []) = Inr (Str Running) \<and>
   last (child_ticks (trace_of (tick shoot_if_bad_guy []))) = (1, Inr (Str Running)) \<and>
   fst (hd (child_ticks (trace_of (tick (node_of (tick shoot_if_bad_guy [])) [])))) = 1"
proof -
  obtain n1 s1 tr1 where run1: "tick shoot_if_bad_guy [] = (Inr (Str Running), n1, s1, tr1)"
    and tr1: "child_ticks tr1 = [(0, Inr (Str Success)), (1, Inr (Str Running))]"
    by (simp add: shoot_if_bad_guy_def delayed_shoot_def run_defs)
  obtain out2 n2 s2 tr2 where run2: "tick n1 [] = (out2, n2, s2, tr2)"
    by (cases "tick n1 []") auto
  have shape: "shoot_if_bad_guy =
      Sequence ''shoot the bad guys'' True
        [calling ''look'' Success, delayed_shoot, calling ''walk'' Success] None \<or>
    shoot_if_bad_guy =
      Selector ''shoot the bad guys'' True
        [calling ''look'' Success, delayed_shoot, calling ''walk'' Success] None"
    by (simp add: shoot_if_bad_guy_def new_Sequence_def)
  from keepState_resumes [OF shape run1 run2] show ?thesis
    by (simp add: run1 run2 tr1 result_of_def trace_of_def node_of_def)
qed

section \<open>Selector\<close>

text \<open>
  C1. The claim is that a Selector all of whose children return Failure returns Failure.
  \<^verbatim>\<open>Selector.tick\<close> ends with \<^verbatim>\<open>this.enumerator.reset()\<close> and no \<^verbatim>\<open>return\<close>, where
  \<^verbatim>\<open>Sequence.tick\<close> ends with \<^verbatim>\<open>return status\<close>: a Selector with at least one child and
  its cursor inside the child list, every ticked child of which returns Failure, gives
  back \<^verbatim>\<open>undefined\<close>, which is not Failure.
\<close>

theorem Selector_all_Failure_undefined:
  assumes "children \<noteq> []"
    and "cursor_in_range children enumerator"
    and "tick (Selector name keepState children enumerator) state = (out, n', state', tr)"
    and "\<forall>x \<in> set (child_ticks tr). snd x = Inr (Str Failure)"
  shows "out = Inr Undefined \<and> out \<noteq> Inr (Str Failure)"
proof -
  let ?e = "init_enumerator keepState children enumerator"
  from assms(3) obtain e' trl where
    run: "sel_loop ?e state = (out, e', state', trl)" and tr: "tr = ([], out) # trl"
    by (rule tick_SelectorD)
  have cur: "current ?e \<noteq> None"
    using start_index_in_range [OF assms(1,2), of keepState] by (simp add: current_init_None)
  from sel_loop_run [OF run cur] obtain k where
    k: "map fst (child_ticks trl) = [start_index keepState enumerator ..< Suc k]"
       "start_index keepState enumerator \<le> k"
       "\<not> sel_stops (snd (last (child_ticks trl))) \<longrightarrow> out = Inr Undefined"
    by auto
  from k(1,2) have "child_ticks trl \<noteq> []" by auto
  then have "last (child_ticks trl) \<in> set (child_ticks trl)" by simp
  with assms(4) have "snd (last (child_ticks trl)) = Inr (Str Failure)" by (simp add: tr)
  with k(3) show ?thesis by (simp add: sel_stops_def)
qed

theorem Selector_all_Failure_undefined_witness:
  "result_of (tick is_captive_behind []) = Inr Undefined \<and>
   child_ticks (trace_of (tick is_captive_behind [])) =
     [(0, Inr (Str Failure)), (1, Inr (Str Failure)), (2, Inr (Str Failure))]"
proof -
  let ?cs = "[calling ''look'' Failure, calling ''look'' Failure, calling ''look'' Failure]"
  obtain out n' s' tr where
    run: "tick (Selector ''is captive behind'' False ?cs None) [] = (out, n', s', tr)"
    and tr: "child_ticks tr = [(0, Inr (Str Failure)), (1, Inr (Str Failure)), (2, Inr (Str Failure))]"
    by (simp add: run_defs)
  have h1: "?cs \<noteq> []" by simp
  have h2: "cursor_in_range ?cs None" by (simp add: cursor_in_range_def)
  have h4: "\<forall>x \<in> set (child_ticks tr). snd x = Inr (Str Failure)" by (simp add: tr)
  have shape: "is_captive_behind = Selector ''is captive behind'' False ?cs None"
    by (simp add: is_captive_behind_def new_Selector_def)
  from Selector_all_Failure_undefined [OF h1 h2 run h4] show ?thesis
    by (simp add: shape run tr result_of_def trace_of_def)
qed

section \<open>The guard on the enumerator\<close>

text \<open>
  C10. \<^verbatim>\<open>isStarted\<close> is true of every enumerator, the one over an empty child list
  included; and no Sequence or Selector returns Running from the guard that tests it:
  whenever the tick of one returns Running, it ticked a child, and the child ticked
  last returned Running.
\<close>

theorem isStarted_always_true:
  "isStarted (e :: 's node Enumerator) \<and> isStarted (new_Enumerator ([] :: 's node list)) \<and>
   ((n = Sequence name keepState children enumerator \<or>
     n = Selector name keepState children enumerator) \<and>
    tick n state = (Inr (Str Running), n', state', tr) \<longrightarrow>
    child_ticks tr \<noteq> [] \<and> snd (last (child_ticks tr)) = Inr (Str Running))"
proof (intro conjI impI)
  show "isStarted e" "isStarted (new_Enumerator [])"
    by (simp_all add: isStarted_def current_member_def)
next
  assume a: "(n = Sequence name keepState children enumerator \<or>
     n = Selector name keepState children enumerator) \<and>
    tick n state = (Inr (Str Running), n', state', tr)"
  let ?e = "init_enumerator keepState children enumerator"
  from a have "child_ticks tr \<noteq> [] \<and> snd (last (child_ticks tr)) = Inr (Str Running)"
  proof (elim conjE disjE)
    assume n: "n = Sequence name keepState children enumerator"
      and t: "tick n state = (Inr (Str Running), n', state', tr)"
    from t [unfolded n] obtain e' trl where
      run: "seq_loop ?e state = (Inr (Str Running), e', state', trl)"
      and tr: "tr = ([], Inr (Str Running)) # trl"
      by (rule tick_SequenceD)
    have cur: "current ?e \<noteq> None" using seq_loop_empty [OF run] by auto
    from seq_loop_run [OF run cur] obtain k where
      "map fst (child_ticks trl) = [start_index keepState enumerator ..< Suc k]"
      "start_index keepState enumerator \<le> k"
      "snd (last (child_ticks trl)) = Inr (Str Running)"
      by auto
    then show ?thesis by (auto simp: tr)
  next
    assume n: "n = Selector name keepState children enumerator"
      and t: "tick n state = (Inr (Str Running), n', state', tr)"
    from t [unfolded n] obtain e' trl where
      run: "sel_loop ?e state = (Inr (Str Running), e', state', trl)"
      and tr: "tr = ([], Inr (Str Running)) # trl"
      by (rule tick_SelectorD)
    have cur: "current ?e \<noteq> None" using sel_loop_empty [OF run] by auto
    have "sel_stops (Inr (Str Running))" "\<not> sel_stops (Inr Undefined)"
      by (simp_all add: sel_stops_def)
    with sel_loop_run [OF run cur] obtain k where
      "map fst (child_ticks trl) = [start_index keepState enumerator ..< Suc k]"
      "start_index keepState enumerator \<le> k"
      "snd (last (child_ticks trl)) = Inr (Str Running)"
      by auto
    then show ?thesis by (auto simp: tr)
  qed
  then show "child_ticks tr \<noteq> []" "snd (last (child_ticks tr)) = Inr (Str Running)"
    by simp_all
qed

theorem isStarted_always_true_witness:
  "isStarted (new_Enumerator ([]::recording node list)) \<and>
   result_of (tick heal_if_low []) = Inr (Str Running) \<and>
   child_ticks (trace_of (tick heal_if_low [])) \<noteq> [] \<and>
   snd (last (child_ticks (trace_of (tick heal_if_low [])))) = Inr (Str Running)"
proof -
  obtain n' s' tr where run: "tick heal_if_low [] = (Inr (Str Running), n', s', tr)"
    by (simp add: heal_if_low_def heal_def run_defs)
  have shape: "heal_if_low = Sequence ''heal_if_low'' True [has_low_health, heal] None \<or>
      heal_if_low = Selector ''heal_if_low'' True [has_low_health, heal] None"
    by (simp add: heal_if_low_def new_Sequence_def)
  from isStarted_always_true [of "new_Enumerator ([]::recording node list)" heal_if_low
      "''heal_if_low''" True "[has_low_health, heal]" None "[]" n' s' tr]
    shape run
  show ?thesis by (simp add: result_of_def trace_of_def)
qed

section \<open>Malformed trees\<close>

text \<open>
  C9. Ticking a Sequence or a Selector with no children, or a Decorator with no child
  bound, throws: the call yields a TypeError and no value.
\<close>

theorem malformed_tree_faults:
  "result_of (tick (Sequence name keepState [] enumerator) state) = Inl TypeError \<and>
   result_of (tick (Selector name' keepState' [] enumerator') state) = Inl TypeError \<and>
   result_of (tick (Decorator name'' before after self None) state) = Inl TypeError"
  by (simp add: result_of_def tick_Sequence tick_Selector seq_loop_none sel_loop_none
      current_None_iff tick.simps split: prod.split)

theorem malformed_tree_faults_witness:
  "result_of (tick (new_Sequence ''empty'' True) ([]::recording)) = Inl TypeError \<and>
   result_of (tick (new_Selector ''empty'' False) ([]::recording)) = Inl TypeError \<and>
   result_of (tick (new_Decorator ''unbound'' default_before default_after) ([]::recording))
     = Inl TypeError"
  using malformed_tree_faults [of "''empty''" True None "[]::recording" "''empty''" False None
      "''unbound''" default_before default_after new_fields]
  by (simp add: new_Sequence_def new_Selector_def new_Decorator_def)

section \<open>Stock decorators\<close>

text \<open>
  C5. A \<^verbatim>\<open>delay\<close> decorator holding no result is reached twice in a row, and its child
  returns Success the first time. The first tick ticks the child, stores Success and
  returns Running. The second tick ticks the child again and returns the stored
  Success, whatever value \<open>r2\<close> the child returns this time (Success in the claim),
  emptying the slot and calling \<^verbatim>\<open>think\<close> on the state the child left. On both ticks
  the one call the decorator makes on a child is the tick of its child.
\<close>

theorem delay_defers_result:
  assumes "\<not> truthy (storedResult self)"
    and "tick child s1 = (Inr (Str Success), child1, s1', tr1)"
    and "tick child1 s2 = (Inr r2, child2, s2', tr2)"
  shows "tick (Decorator name default_before (delay_after think) self (Some child)) s1 =
           (Inr (Str Running),
            Decorator name default_before (delay_after think)
              (self\<lparr>storedResult := Str Success, should_skip := True\<rparr>) (Some child1),
            s1', ([], Inr (Str Running)) # under 0 tr1) \<and>
         child_ticks (([], Inr (Str Running)) # under 0 tr1) = [(0, Inr (Str Success))] \<and>
         tick (Decorator name default_before (delay_after think)
              (self\<lparr>storedResult := Str Success, should_skip := True\<rparr>) (Some child1)) s2 =
           (Inr (Str Success),
            Decorator name default_before (delay_after think)
              (self\<lparr>storedResult := Null, should_skip := False\<rparr>) (Some child2),
            think s2', ([], Inr (Str Success)) # under 0 tr2) \<and>
         child_ticks (([], Inr (Str Success)) # under 0 tr2) = [(0, Inr r2)]"
  using assms child_ticks_child [OF assms(2), of 0] child_ticks_child [OF assms(3), of 0]
  by (simp add: tick.simps default_before_def delay_after_def)

theorem delay_defers_result_witness:
  "result_of (tick delayed_shoot []) = Inr (Str Running) \<and>
   state_of (tick delayed_shoot []) = [''shoot''] \<and>
   result_of (tick (node_of (tick delayed_shoot [])) [''shoot'']) = Inr (Str Success) \<and>
   state_of (tick (node_of (tick delayed_shoot [])) [''shoot'']) = [''shoot'', ''shoot'', ''think'']"
proof -
  let ?c = "calling ''shoot'' Success"
  have h1: "\<not> truthy (storedResult new_fields)" by (simp add: new_fields_def)
  have h2: "tick ?c [] = (Inr (Str Success), ?c, [''shoot''], [([], Inr (Str Success))])"
    by (simp add: run_defs)
  have h3: "tick ?c [''shoot''] = (Inr (Str Success), ?c, [''shoot'', ''shoot''], [([], Inr (Str Success))])"
    by (simp add: run_defs)
  have shape: "delayed_shoot = Decorator ''delay'' default_before (delay_after think_rec) new_fields (Some ?c)"
    by (simp add: delayed_shoot_def delay_def new_Decorator_def)
  from delay_defers_result [OF h1 h2 h3, of "''delay''" think_rec] show ?thesis
    by (simp add: shape result_of_def state_of_def node_of_def think_rec_def)
qed

text \<open>
  C6. An \<^verbatim>\<open>until\<close> decorator whose \<^verbatim>\<open>done\<close> flag is not set is reached three times;
  its predicate gives false, false and true on the states of the three reaches, and
  its child, ticked each time in the state the predicate left, returns Success each
  time. The decorator returns Running, Running, Success, ticking the child on every
  reach.
\<close>

theorem until_waits:
  assumes "\<not> done_flag self"
    and "pred s1 = (False, p1)" "pred s2 = (False, p2)" "pred s3 = (True, p3)"
    and "tick child p1 = (Inr (Str Success), child1, s1', tr1)"
    and "tick child1 p2 = (Inr (Str Success), child2, s2', tr2)"
    and "tick child2 p3 = (Inr (Str Success), child3, s3', tr3)"
  shows "tick (Decorator name (until_before pred) until_after self (Some child)) s1 =
           (Inr (Str Running),
            Decorator name (until_before pred) until_after self (Some child1),
            s1', ([], Inr (Str Running)) # under 0 tr1) \<and>
         tick (Decorator name (until_before pred) until_after self (Some child1)) s2 =
           (Inr (Str Running),
            Decorator name (until_before pred) until_after self (Some child2),
            s2', ([], Inr (Str Running)) # under 0 tr2) \<and>
         tick (Decorator name (until_before pred) until_after self (Some child2)) s3 =
           (Inr (Str Success),
            Decorator name (until_before pred) until_after
              (self\<lparr>should_skip := False, done_flag := False\<rparr>) (Some child3),
            s3', ([], Inr (Str Success)) # under 0 tr3)"
  using assms by (simp add: tick.simps until_before_def until_after_def)

theorem until_waits_witness:
  "result_of (tick heal []) = Inr (Str Running) \<and>
   result_of (tick (node_of (tick heal [])) [''rest'']) = Inr (Str Running) \<and>
   result_of (tick (node_of (tick (node_of (tick heal [])) [''rest''])) [''rest'', ''rest''])
     = Inr (Str Success)"
proof -
  let ?c = "calling ''rest'' Success"
  let ?q = "[''health'', ''maxHealth'']"
  have h0: "\<not> done_flag new_fields" by (simp add: new_fields_def)
  have p: "full_health [] = (False, ?q)" "full_health [''rest''] = (False, ''rest'' # ?q)"
    "full_health [''rest'', ''rest''] = (True, ''rest'' # ''rest'' # ?q)"
    by (simp_all add: full_health_def)
  have t1: "tick ?c ?q = (Inr (Str Success), ?c, ?q @ [''rest''], [([], Inr (Str Success))])"
    by (simp add: run_defs)
  have t2: "tick ?c (''rest'' # ?q) =
      (Inr (Str Success), ?c, ''rest'' # ?q @ [''rest''], [([], Inr (Str Success))])"
    by (simp add: run_defs)
  have t3: "tick ?c (''rest'' # ''rest'' # ?q) =
      (Inr (Str Success), ?c, ''rest'' # ''rest'' # ?q @ [''rest''], [([], Inr (Str Success))])"
    by (simp add: run_defs)
  have shape: "heal = Decorator ''until'' (until_before full_health) until_after new_fields (Some ?c)"
    by (simp add: heal_def until_def new_Decorator_def)
  from until_waits [OF h0 p t1 t2 t3, of "''until''"] show ?thesis
    by (simp add: shape result_of_def node_of_def)
qed
section \<open>Calls on the world handle\<close>

text \<open>Calls follow one another, and a larger set of operations allows what a smaller one
  does.\<close>

lemma world_calls_trans:
  "world_calls ops s' s'' \<Longrightarrow> world_calls ops s s' \<Longrightarrow> world_calls ops s s''"
  by (induction rule: world_calls.induct) (auto intro: world_calls.intros)

lemma world_calls_mono:
  "world_calls ops s s' \<Longrightarrow> ops \<subseteq> ops' \<Longrightarrow> world_calls ops' s s'"
  by (induction rule: world_calls.induct) (auto intro: world_calls.intros)

lemma world_calls_one: "f \<in> ops \<Longrightarrow> world_calls ops s (f s)"
  by (rule call [OF no_call])

lemma only_callsD:
  "only_calls ops n \<Longrightarrow> tick n s = (out, n', s', tr) \<Longrightarrow> world_calls ops s s'"
proof -
  assume "only_calls ops n" and t: "tick n s = (out, n', s', tr)"
  then have "world_calls ops s (state_of (tick n s))"
    unfolding only_calls_def by blast
  with t show ?thesis by (simp add: state_of_def)
qed

lemma only_calls_mono: "only_calls ops n \<Longrightarrow> ops \<subseteq> ops' \<Longrightarrow> only_calls ops' n"
  unfolding only_calls_def by (blast intro: world_calls_mono)

text \<open>What each hook of the source does to the state.\<close>

lemma default_before_state: "fst (default_before state self) = state"
  by (simp add: default_before_def)

lemma until_before_state: "fst (until_before pred state self) = snd (pred state)"
  by (cases "pred state") (simp add: until_before_def)

lemma default_after_state: "snd (snd (default_after r self state)) = state"
  by (simp add: default_after_def)

lemma not_after_state: "snd (snd (not_after r self state)) = state"
  by (simp add: not_after_def)

lemma until_after_state: "snd (snd (until_after r self state)) = state"
  by (simp add: until_after_def)

lemma delay_after_state:
  "snd (snd (delay_after think r self state)) =
     (if truthy (storedResult self) then think state else state)"
  by (simp add: delay_after_def)

lemma stock_before_calls:
  assumes "stock_hooks think before after"
  shows "world_calls (hook_ops think before after self) s (fst (before s self))"
proof -
  from assms consider "before = default_before" | pred where "before = until_before pred"
    by (auto simp: stock_hooks_def)
  then show ?thesis
  proof cases
    case 1
    then show ?thesis by (simp add: default_before_state no_call)
  next
    case 2
    then have "(\<lambda>s. snd (pred s)) \<in> hook_ops think before after self"
      by (auto simp: hook_ops_def)
    from world_calls_one [OF this, of s] 2 show ?thesis by (simp add: until_before_state)
  qed
qed

lemma stock_before_self:
  assumes "stock_hooks think before after" "after = delay_after think"
  shows "snd (before s self) = self"
proof -
  have "until_after \<noteq> delay_after think"
  proof
    assume "until_after = delay_after think"
    then have "until_after (Str Failure) new_fields s = delay_after think (Str Failure) new_fields s"
      by simp
    then show False by (simp add: until_after_def delay_after_def new_fields_def)
  qed
  with assms have "before = default_before" by (auto simp: stock_hooks_def)
  then show ?thesis by (simp add: default_before_def)
qed

lemma stock_after_calls:
  assumes "stock_hooks think before after"
  shows "world_calls (hook_ops think before after self) s
           (snd (snd (after r (snd (before s0 self)) s)))"
proof -
  from assms consider "after = default_after" | "after = not_after"
    | "after = delay_after think" | "after = until_after"
    by (auto simp: stock_hooks_def)
  then show ?thesis
  proof cases
    case 3
    with assms have same: "snd (before s0 self) = self" by (simp add: stock_before_self)
    show ?thesis
    proof (cases "truthy (storedResult self)")
      case True
      with 3 have "think \<in> hook_ops think before after self" by (simp add: hook_ops_def)
      from world_calls_one [OF this, of s] 3 True same show ?thesis
        by (simp add: delay_after_state)
    next
      case False
      with 3 same show ?thesis by (simp add: delay_after_state no_call)
    qed
  qed (simp_all add: default_after_state not_after_state until_after_state no_call)
qed

text \<open>The loops pass the state from one child they tick to the next and do nothing
  else to it.\<close>

lemma thread_update: "i \<notin> set js \<Longrightarrow> thread (cs[i := c]) s js = thread cs s js"
  by (induction js arbitrary: s) simp_all

lemma seq_loop_thread:
  "seq_loop e s = (out, e', s', tr) \<Longrightarrow> s' = thread (nodes e) s (map fst (child_ticks tr))"
proof (induction rule: seq_loop_induct)
  case (none e s)
  show ?case by simp
next
  case (stop e s c r c' s' tr)
  from stop(1) have "c = nodes e ! currentIndex e" by (simp add: current_Some_iff)
  with stop(2) show ?case by (simp add: child_ticks_child [OF stop(2)] state_of_def)
next
  case (continue e s c c' s' tr out e3 s'' tr')
  let ?i = "currentIndex e"
  let ?e2 = "e\<lparr>nodes := (nodes e)[?i := c'], currentIndex := Suc ?i\<rparr>"
  from continue(1) have c: "c = nodes e ! ?i" by (simp add: current_Some_iff)
  have "current ?e2 \<noteq> None"
    using continue(3) by (simp add: current_None_iff hasNext_iff)
  from seq_loop_run [OF continue(4) this] obtain k where
    "map fst (child_ticks tr') = [Suc ?i ..< Suc k]" by auto
  then have "?i \<notin> set (map fst (child_ticks tr'))" by simp
  then have "thread (nodes ?e2) s' (map fst (child_ticks tr'))
      = thread (nodes e) s' (map fst (child_ticks tr'))"
    by (simp add: thread_update del: set_map)
  with continue.IH c continue(2) show ?case
    by (simp add: child_ticks_append child_ticks_child [OF continue(2)] state_of_def)
qed

lemma sel_loop_thread:
  "sel_loop e s = (out, e', s', tr) \<Longrightarrow> s' = thread (nodes e) s (map fst (child_ticks tr))"
proof (induction rule: sel_loop_induct)
  case (none e s)
  show ?case by simp
next
  case (stop e s c r c' s' tr)
  from stop(1) have "c = nodes e ! currentIndex e" by (simp add: current_Some_iff)
  with stop(2) show ?case by (simp add: child_ticks_child [OF stop(2)] state_of_def)
next
  case (exhausted e s c r c' s' tr)
  from exhausted(1) have "c = nodes e ! currentIndex e" by (simp add: current_Some_iff)
  with exhausted(2) show ?case by (simp add: child_ticks_child [OF exhausted(2)] state_of_def)
next
  case (continue e s c r c' s' tr out e3 s'' tr')
  let ?i = "currentIndex e"
  let ?e2 = "e\<lparr>nodes := (nodes e)[?i := c'], currentIndex := Suc ?i\<rparr>"
  from continue(1) have c: "c = nodes e ! ?i" by (simp add: current_Some_iff)
  have "current ?e2 \<noteq> None"
    using continue(4) by (simp add: current_None_iff hasNext_iff)
  from sel_loop_run [OF continue(5) this] obtain k where
    "map fst (child_ticks tr') = [Suc ?i ..< Suc k]" by auto
  then have "?i \<notin> set (map fst (child_ticks tr'))" by simp
  then have "thread (nodes ?e2) s' (map fst (child_ticks tr'))
      = thread (nodes e) s' (map fst (child_ticks tr'))"
    by (simp add: thread_update del: set_map)
  with continue.IH c continue(2) show ?case
    by (simp add: child_ticks_append child_ticks_child [OF continue(2)] state_of_def)
qed

lemma Sequence_threads:
  "state_of (tick (Sequence name ks cs en) s) =
     thread cs s (map fst (child_ticks (trace_of (tick (Sequence name ks cs en) s))))"
proof -
  obtain out e' s' tr where run: "seq_loop (init_enumerator ks cs en) s = (out, e', s', tr)"
    by (cases "seq_loop (init_enumerator ks cs en) s") auto
  from seq_loop_thread [OF run] show ?thesis
    by (simp add: tick_Sequence run state_of_def trace_of_def)
qed

lemma Selector_threads:
  "state_of (tick (Selector name ks cs en) s) =
     thread cs s (map fst (child_ticks (trace_of (tick (Selector name ks cs en) s))))"
proof -
  obtain out e' s' tr where run: "sel_loop (init_enumerator ks cs en) s = (out, e', s', tr)"
    by (cases "sel_loop (init_enumerator ks cs en) s") auto
  from sel_loop_thread [OF run] show ?thesis
    by (simp add: tick_Selector run state_of_def trace_of_def)
qed

text \<open>The Decorator class passes the state through its \<^verbatim>\<open>before\<close> hook, its child and,
  when the child returns, its \<^verbatim>\<open>after\<close> hook, and does nothing else to it.\<close>

lemma Decorator_unbound_state:
  "state_of (tick (Decorator name before after self None) s) = fst (before s self)"
  by (cases "before s self") (simp add: tick.simps state_of_def)

lemma Decorator_state:
  "state_of (tick (Decorator name before after self (Some c)) s) =
     (case result_of (tick c (fst (before s self))) of
        Inl err \<Rightarrow> state_of (tick c (fst (before s self)))
      | Inr v \<Rightarrow> snd (snd (after v (snd (before s self))
                   (state_of (tick c (fst (before s self)))))))"
proof -
  obtain ns f1 where b: "before s self = (ns, f1)" by (cases "before s self")
  obtain r c' s' tr where t: "tick c ns = (r, c', s', tr)" by (cases "tick c ns") auto
  show ?thesis
  proof (cases r)
    case (Inl err)
    with b t show ?thesis by (simp add: tick.simps state_of_def result_of_def)
  next
    case (Inr v)
    obtain res f2 s2 where a: "after v f1 s' = (res, f2, s2)" by (cases "after v f1 s'") auto
    with Inr b t show ?thesis by (simp add: tick.simps state_of_def result_of_def)
  qed
qed

text \<open>So the state a tick of a tree ends in comes from the state it starts in by what
  the tree's leaf actions, \<^verbatim>\<open>until\<close> predicates and releasing \<^verbatim>\<open>delay\<close> hooks do.\<close>

lemma seq_loop_only_calls:
  assumes "seq_loop e s = (out, e', s', tr)"
    and "\<forall>j. currentIndex e \<le> j \<and> j < length (nodes e) \<longrightarrow> only_calls ops (nodes e ! j)"
  shows "world_calls ops s s'"
  using assms
proof (induction rule: seq_loop_induct)
  case (none e s)
  show ?case by (rule no_call)
next
  case (stop e s c r c' s' tr)
  from stop(1,4) have "only_calls ops c" by (simp add: current_Some_iff)
  then show ?case using stop(2) by (rule only_callsD)
next
  case (continue e s c c' s' tr out e3 s'' tr')
  from continue(1) continue.prems have "only_calls ops c" by (simp add: current_Some_iff)
  then have first: "world_calls ops s s'" using continue(2) by (rule only_callsD)
  have "world_calls ops s' s''"
    by (rule continue.IH) (use continue.prems in simp)
  then show ?case using first by (rule world_calls_trans)
qed

lemma sel_loop_only_calls:
  assumes "sel_loop e s = (out, e', s', tr)"
    and "\<forall>j. currentIndex e \<le> j \<and> j < length (nodes e) \<longrightarrow> only_calls ops (nodes e ! j)"
  shows "world_calls ops s s'"
  using assms
proof (induction rule: sel_loop_induct)
  case (none e s)
  show ?case by (rule no_call)
next
  case (stop e s c r c' s' tr)
  from stop(1,4) have "only_calls ops c" by (simp add: current_Some_iff)
  then show ?case using stop(2) by (rule only_callsD)
next
  case (exhausted e s c r c' s' tr)
  from exhausted(1,5) have "only_calls ops c" by (simp add: current_Some_iff)
  then show ?case using exhausted(2) by (rule only_callsD)
next
  case (continue e s c r c' s' tr out e3 s'' tr')
  from continue(1) continue.prems have "only_calls ops c" by (simp add: current_Some_iff)
  then have first: "world_calls ops s s'" using continue(2) by (rule only_callsD)
  have "world_calls ops s' s''"
    by (rule continue.IH) (use continue.prems in simp)
  then show ?case using first by (rule world_calls_trans)
qed

lemma stock_only_calls: "stock think n \<Longrightarrow> only_calls (world_ops think n) n"
proof (induction n)
  case (Action name action)
  have "world_calls {\<lambda>s. snd (action s)} s (state_of (tick (Action name action) s))" for s
  proof -
    have "world_calls {\<lambda>s. snd (action s)} s ((\<lambda>s. snd (action s)) s)"
      by (rule world_calls_one) simp
    then show ?thesis by (cases "action s") (simp add: tick.simps state_of_def)
  qed
  then show ?case by (simp add: only_calls_def)
next
  case (Sequence name ks cs en)
  let ?ops = "world_ops think (Sequence name ks cs en)"
  have kids: "\<forall>j. j < length cs \<longrightarrow> only_calls ?ops (cs ! j)"
  proof (intro allI impI)
    fix j assume j: "j < length cs"
    with Sequence have "only_calls (world_ops think (cs ! j)) (cs ! j)"
      by (simp add: list_all_length)
    moreover have "world_ops think (cs ! j) \<subseteq> ?ops"
      using nth_mem [OF j] by (simp only: world_ops.simps UN_upper)
    ultimately show "only_calls ?ops (cs ! j)" by (rule only_calls_mono)
  qed
  show ?case unfolding only_calls_def
  proof
    fix s
    obtain out e' s' tr where run: "seq_loop (init_enumerator ks cs en) s = (out, e', s', tr)"
      by (cases "seq_loop (init_enumerator ks cs en) s") auto
    from seq_loop_only_calls [OF run, of ?ops] kids
    show "world_calls ?ops s (state_of (tick (Sequence name ks cs en) s))"
      by (simp add: tick_Sequence run state_of_def)
  qed
next
  case (Selector name ks cs en)
  let ?ops = "world_ops think (Selector name ks cs en)"
  have kids: "\<forall>j. j < length cs \<longrightarrow> only_calls ?ops (cs ! j)"
  proof (intro allI impI)
    fix j assume j: "j < length cs"
    with Selector have "only_calls (world_ops think (cs ! j)) (cs ! j)"
      by (simp add: list_all_length)
    moreover have "world_ops think (cs ! j) \<subseteq> ?ops"
      using nth_mem [OF j] by (simp only: world_ops.simps UN_upper)
    ultimately show "only_calls ?ops (cs ! j)" by (rule only_calls_mono)
  qed
  show ?case unfolding only_calls_def
  proof
    fix s
    obtain out e' s' tr where run: "sel_loop (init_enumerator ks cs en) s = (out, e', s', tr)"
      by (cases "sel_loop (init_enumerator ks cs en) s") auto
    from sel_loop_only_calls [OF run, of ?ops] kids
    show "world_calls ?ops s (state_of (tick (Selector name ks cs en) s))"
      by (simp add: tick_Selector run state_of_def)
  qed
next
  case (Decorator name before after self node)
  let ?t = "Decorator name before after self node"
  let ?h = "hook_ops think before after self"
  have h: "stock_hooks think before after"
    using Decorator.prems by (cases node) simp_all
  have sub: "?h \<subseteq> world_ops think ?t" by (cases node) simp_all
  show ?case unfolding only_calls_def
  proof
    fix s
    let ?s1 = "fst (before s self)"
    have b: "world_calls (world_ops think ?t) s ?s1"
      using stock_before_calls [OF h, of self s] sub by (rule world_calls_mono)
    show "world_calls (world_ops think ?t) s (state_of (tick ?t s))"
    proof (cases node)
      case None
      with b show ?thesis by (simp add: Decorator_unbound_state)
    next
      case (Some c)
      with Decorator.prems have "stock think c" by simp
      with Some Decorator.IH have "only_calls (world_ops think c) c" by simp
      then have "world_calls (world_ops think c) ?s1 (state_of (tick c ?s1))"
        by (simp add: only_calls_def)
      then have "world_calls (world_ops think ?t) ?s1 (state_of (tick c ?s1))"
        by (rule world_calls_mono) (simp add: Some)
      then have child: "world_calls (world_ops think ?t) s (state_of (tick c ?s1))"
        using b by (rule world_calls_trans)
      show ?thesis
      proof (cases "result_of (tick c ?s1)")
        case (Inl err)
        with child Some show ?thesis by (simp add: Decorator_state)
      next
        case (Inr v)
        have "world_calls (world_ops think ?t) (state_of (tick c ?s1))
            (snd (snd (after v (snd (before s self)) (state_of (tick c ?s1)))))"
          using stock_after_calls [OF h, of self "state_of (tick c ?s1)" v s] sub
          by (rule world_calls_mono)
        then have "world_calls (world_ops think ?t) s
            (snd (snd (after v (snd (before s self)) (state_of (tick c ?s1)))))"
          using child by (rule world_calls_trans)
        with Inr Some show ?thesis by (simp add: Decorator_state)
      qed
    qed
  qed
qed

text \<open>The sample trees, spelt out.\<close>

lemma heal_if_low_shape:
  "heal_if_low = Sequence ''heal_if_low'' True [has_low_health, heal] None"
  "heal = Decorator ''until'' (until_before full_health) until_after new_fields
            (Some (calling ''rest'' Success))"
  by (simp_all add: heal_if_low_def new_Sequence_def heal_def until_def new_Decorator_def)

lemma waiting_shape:
  "waiting =
      Decorator ''delay'' default_before (delay_after think_rec)
        \<lparr>should_skip = True, storedResult = Str Success, done_flag = False\<rparr> (Some idle)"
  by (simp add: waiting_def delay_def new_Decorator_def new_fields_def node_of_def tick.simps
      idle_def default_before_def delay_after_def)

text \<open>
  C7, as the code has it. Operations on the world handle are invoked from leaf actions,
  from the predicate an \<^verbatim>\<open>until\<close> decorator was given, which its \<^verbatim>\<open>before\<close> hook runs,
  and from the \<^verbatim>\<open>after\<close> hook of \<^verbatim>\<open>delay\<close>, which calls \<^verbatim>\<open>warrior.think\<close> when it
  releases a stored result; nothing else in the engine invokes any.

  For a tree built from the four classes and the hooks of the source, the state a tick
  ends in comes from the state it starts in by calls of the tree's leaf actions, of the
  predicates of its \<^verbatim>\<open>until\<close> decorators, and of \<^verbatim>\<open>think\<close> if the tree has a \<^verbatim>\<open>delay\<close>
  decorator holding a stored result, and by nothing else. Class by class: a leaf does
  to the state what its action does; a Sequence and a Selector pass the state from
  each child they tick to the next; a Decorator passes it through its \<^verbatim>\<open>before\<close> hook,
  its child and its \<^verbatim>\<open>after\<close> hook; the default hooks, the hook of \<^verbatim>\<open>not\<close> and the
  \<^verbatim>\<open>after\<close> hook of \<^verbatim>\<open>until\<close> leave the state as it is; the \<^verbatim>\<open>before\<close> hook of \<^verbatim>\<open>until\<close>
  leaves it as the predicate left it; the hook of \<^verbatim>\<open>delay\<close> calls \<^verbatim>\<open>think\<close> on it when
  it holds a stored result and leaves it as it is otherwise.
\<close>

theorem world_handle_callers:
  "(stock think n \<longrightarrow> world_calls (world_ops think n) state (state_of (tick n state))) \<and>
   state_of (tick (Action name action) state) = snd (action state) \<and>
   state_of (tick (Sequence name ks cs en) state) =
     thread cs state (map fst (child_ticks (trace_of (tick (Sequence name ks cs en) state)))) \<and>
   state_of (tick (Selector name ks cs en) state) =
     thread cs state (map fst (child_ticks (trace_of (tick (Selector name ks cs en) state)))) \<and>
   state_of (tick (Decorator name before after self None) state) = fst (before state self) \<and>
   state_of (tick (Decorator name before after self (Some c)) state) =
     (case result_of (tick c (fst (before state self))) of
        Inl err \<Rightarrow> state_of (tick c (fst (before state self)))
      | Inr v \<Rightarrow> snd (snd (after v (snd (before state self))
                   (state_of (tick c (fst (before state self))))))) \<and>
   fst (default_before state self) = state \<and>
   snd (snd (default_after r self state)) = state \<and>
   snd (snd (not_after r self state)) = state \<and>
   fst (until_before pred state self) = snd (pred state) \<and>
   snd (snd (until_after r self state)) = state \<and>
   snd (snd (delay_after think r self state)) =
     (if truthy (storedResult self) then think state else state)"
proof (intro conjI impI)
  assume "stock think n"
  from stock_only_calls [OF this]
  show "world_calls (world_ops think n) state (state_of (tick n state))"
    by (simp add: only_calls_def)
next
  show "state_of (tick (Action name action) state) = snd (action state)"
    by (cases "action state") (simp add: tick.simps state_of_def)
qed (simp_all only: Sequence_threads Selector_threads Decorator_unbound_state Decorator_state
    default_before_state default_after_state not_after_state until_before_state
    until_after_state delay_after_state)

theorem world_handle_callers_witness:
  "world_calls (world_ops think_rec heal_if_low) [] (state_of (tick heal_if_low [])) \<and>
   state_of (tick heal_if_low []) = [''maxHealth'', ''health'', ''health'', ''maxHealth'', ''rest''] \<and>
   world_calls (world_ops think_rec waiting) [] (state_of (tick waiting [])) \<and>
   state_of (tick waiting []) = [''think'']"
proof -
  have h1: "stock think_rec heal_if_low"
    by (auto simp: heal_if_low_shape stock_hooks_def has_low_health_def calling_def)
  have h2: "stock think_rec waiting"
    by (simp add: waiting_shape stock_hooks_def idle_def)
  have s1: "state_of (tick heal_if_low []) =
      [''maxHealth'', ''health'', ''health'', ''maxHealth'', ''rest'']"
    by (simp add: heal_if_low_def heal_def run_defs)
  have s2: "state_of (tick waiting []) = [''think'']"
    by (simp add: waiting_shape tick.simps idle_def default_before_def delay_after_def
        state_of_def think_rec_def)
  from world_handle_callers [of think_rec heal_if_low "[]"] h1
  have "world_calls (world_ops think_rec heal_if_low) [] (state_of (tick heal_if_low []))"
    by blast
  moreover from world_handle_callers [of think_rec waiting "[]"] h2
  have "world_calls (world_ops think_rec waiting) [] (state_of (tick waiting []))"
    by blast
  ultimately show ?thesis using s1 s2 by simp
qed

text \<open>Calls of leaf actions alone do not reach what the two sample decorators leave.\<close>

lemma idle_calls_nothing: "world_calls (leaf_ops waiting) s s' \<Longrightarrow> s' = s"
  by (induction rule: world_calls.induct) (simp_all add: waiting_shape idle_def)

lemma rest_calls_rest: "world_calls (leaf_ops heal) [] s' \<Longrightarrow> set s' \<subseteq> {''rest''}"
  by (induction rule: world_calls.induct) (auto simp: heal_if_low_shape calling_def)

text \<open>
  C7 as claimed fails. \<^verbatim>\<open>delay\<close> over a leaf that calls nothing on the warrior, ticked
  once before, leaves a \<^verbatim>\<open>think\<close> call on the recording warrior; \<^verbatim>\<open>until\<close> over
  \<^verbatim>\<open>rest\<close> with the predicate of \<^verbatim>\<open>healIfLow\<close> leaves the predicate's \<^verbatim>\<open>health\<close> and
  \<^verbatim>\<open>maxHealth\<close> calls. Neither state is one that calls of the tree's leaf actions lead
  to.
\<close>

theorem delay_and_until_call_the_world:
  "state_of (tick waiting []) = [''think''] \<and>
   \<not> world_calls (leaf_ops waiting) [] (state_of (tick waiting [])) \<and>
   state_of (tick heal []) = [''health'', ''maxHealth'', ''rest''] \<and>
   \<not> world_calls (leaf_ops heal) [] (state_of (tick heal []))"
proof -
  have s1: "state_of (tick waiting []) = [''think'']"
    by (simp add: waiting_shape tick.simps idle_def default_before_def delay_after_def
        state_of_def think_rec_def)
  have s2: "state_of (tick heal []) = [''health'', ''maxHealth'', ''rest'']"
    by (simp add: heal_def run_defs)
  have "\<not> world_calls (leaf_ops waiting) [] [''think'']"
    using idle_calls_nothing [of "[]" "[''think'']"] by auto
  moreover have "\<not> world_calls (leaf_ops heal) [] [''health'', ''maxHealth'', ''rest'']"
    using rest_calls_rest [of "[''health'', ''maxHealth'', ''rest'']"] by auto
  ultimately show ?thesis using s1 s2 by simp
qed

section \<open>The should-skip flag\<close>

text \<open>The hooks of the source read \<^verbatim>\<open>_storedResult\<close> and \<^verbatim>\<open>done\<close> and never
  \<^verbatim>\<open>should_skip\<close>; the loops and the Decorator class read no field of a decorator at
  all.\<close>

lemma skip_blindD:
  assumes "skip_blind t" "forget_skip t = forget_skip t2" "tick t s = (out, t', s', tr)"
  obtains t2' where "tick t2 s = (out, t2', s', tr)" "forget_skip t' = forget_skip t2'"
proof -
  from assms(1,2) have
    "result_of (tick t s) = result_of (tick t2 s) \<and>
     state_of (tick t s) = state_of (tick t2 s) \<and>
     trace_of (tick t s) = trace_of (tick t2 s) \<and>
     forget_skip (node_of (tick t s)) = forget_skip (node_of (tick t2 s))"
    unfolding skip_blind_def by blast
  with assms(3) show ?thesis
    by (cases "tick t2 s")
       (auto simp: result_of_def state_of_def trace_of_def node_of_def intro: that)
qed

lemma fields_skip_eq:
  "(f :: fields)\<lparr>should_skip := False\<rparr> = g\<lparr>should_skip := False\<rparr> \<longleftrightarrow>
     storedResult f = storedResult g \<and> done_flag f = done_flag g"
  by (cases f, cases g) simp

lemma stock_before_blind:
  assumes "stock_hooks think before after" "f\<lparr>should_skip := False\<rparr> = g\<lparr>should_skip := False\<rparr>"
  shows "fst (before s f) = fst (before s g) \<and>
         (snd (before s f))\<lparr>should_skip := False\<rparr> = (snd (before s g))\<lparr>should_skip := False\<rparr>"
proof -
  from assms(1) consider "before = default_before" | pred where "before = until_before pred"
    by (auto simp: stock_hooks_def)
  then show ?thesis
  proof cases
    case 1
    with assms(2) show ?thesis by (simp add: default_before_def)
  next
    case 2
    with assms(2) show ?thesis
      by (cases "pred s") (simp add: until_before_def fields_skip_eq)
  qed
qed

lemma stock_after_blind:
  assumes "stock_hooks think before after" "f\<lparr>should_skip := False\<rparr> = g\<lparr>should_skip := False\<rparr>"
  shows "fst (after r f s) = fst (after r g s) \<and>
         (fst (snd (after r f s)))\<lparr>should_skip := False\<rparr>
           = (fst (snd (after r g s)))\<lparr>should_skip := False\<rparr> \<and>
         snd (snd (after r f s)) = snd (snd (after r g s))"
proof -
  from assms(1) consider "after = default_after" | "after = not_after"
    | "after = delay_after think" | "after = until_after"
    by (auto simp: stock_hooks_def)
  then show ?thesis
  proof cases
    case 1
    with assms(2) show ?thesis by (simp add: default_after_def)
  next
    case 2
    with assms(2) show ?thesis by (simp add: not_after_def)
  next
    case 3
    with assms(2) show ?thesis by (simp add: delay_after_def fields_skip_eq)
  next
    case 4
    with assms(2) show ?thesis by (simp add: until_after_def fields_skip_eq)
  qed
qed

lemma forget_skip_Action:
  "forget_skip t2 = Action name action \<Longrightarrow> t2 = Action name action"
  by (cases t2 rule: forget_skip.cases) simp_all

lemma forget_skip_Sequence:
  "Sequence name ks cs' en = forget_skip t2 \<Longrightarrow>
     \<exists>cs2. t2 = Sequence name ks cs2 en \<and> map forget_skip cs2 = cs'"
  by (cases t2 rule: forget_skip.cases) auto

lemma forget_skip_Selector:
  "Selector name ks cs' en = forget_skip t2 \<Longrightarrow>
     \<exists>cs2. t2 = Selector name ks cs2 en \<and> map forget_skip cs2 = cs'"
  by (cases t2 rule: forget_skip.cases) auto

lemma forget_skip_Decorator:
  "forget_skip (Decorator name before after f node) = forget_skip t2 \<Longrightarrow>
     \<exists>g node2. t2 = Decorator name before after g node2 \<and>
       f\<lparr>should_skip := False\<rparr> = g\<lparr>should_skip := False\<rparr> \<and>
       map_option forget_skip node = map_option forget_skip node2"
  by (cases t2 rule: forget_skip.cases; cases node) auto

lemma seq_loop_blind:
  assumes "seq_loop e s = (out, e', s', tr)"
    and "currentIndex g = currentIndex e"
    and "map forget_skip (nodes e) = map forget_skip (nodes g)"
    and "\<forall>j. currentIndex e \<le> j \<and> j < length (nodes e) \<longrightarrow> skip_blind (nodes e ! j)"
  shows "\<exists>g'. seq_loop g s = (out, g', s', tr) \<and> currentIndex g' = currentIndex e' \<and>
              map forget_skip (nodes e') = map forget_skip (nodes g')"
  using assms
proof (induction arbitrary: g rule: seq_loop_induct)
  case (none e s)
  from none(3) have "length (nodes e) = length (nodes g)" by (rule map_eq_imp_length_eq)
  with none(1,2) have "current g = None" by (simp add: current_None_iff)
  with none show ?case by (simp add: seq_loop_none)
next
  case (stop e s c r c' s' tr)
  let ?i = "currentIndex e"
  from stop(5) have len: "length (nodes e) = length (nodes g)" by (rule map_eq_imp_length_eq)
  from stop(1) have lt: "?i < length (nodes e)" and c: "c = nodes e ! ?i"
    by (simp_all add: current_Some_iff)
  have cg: "current g = Some (nodes g ! ?i)"
    using lt len stop(4) by (simp add: current_Some_iff)
  have "forget_skip c = forget_skip (nodes g ! ?i)"
    using stop(5) lt len c by (metis nth_map)
  moreover have "skip_blind c" using stop(6) lt c by simp
  ultimately obtain cg' where t2: "tick (nodes g ! ?i) s = (r, cg', s', tr)"
    and f2: "forget_skip c' = forget_skip cg'"
    using stop(2) by (blast elim: skip_blindD)
  have h: "r \<noteq> Inr (Str Success) \<or> \<not> hasNext g"
    using stop(3,4) len by (simp add: hasNext_iff)
  show ?case
    using seq_loop_stop [OF cg t2 h] stop(4,5) f2 by (simp add: map_update)
next
  case (continue e s c c' s' tr out e3 s'' tr')
  let ?i = "currentIndex e"
  from continue.prems(2) have len: "length (nodes e) = length (nodes g)"
    by (rule map_eq_imp_length_eq)
  from continue(1) have lt: "?i < length (nodes e)" and c: "c = nodes e ! ?i"
    by (simp_all add: current_Some_iff)
  have cg: "current g = Some (nodes g ! ?i)"
    using lt len continue.prems(1) by (simp add: current_Some_iff)
  have "forget_skip c = forget_skip (nodes g ! ?i)"
    using continue.prems(2) lt len c by (metis nth_map)
  moreover have "skip_blind c" using continue.prems(3) lt c by simp
  ultimately obtain cg' where t2: "tick (nodes g ! ?i) s = (Inr (Str Success), cg', s', tr)"
    and f2: "forget_skip c' = forget_skip cg'"
    using continue(2) by (blast elim: skip_blindD)
  have h: "hasNext g" using continue(3) continue.prems(1) len by (simp add: hasNext_iff)
  let ?g2 = "g\<lparr>nodes := (nodes g)[currentIndex g := cg'], currentIndex := Suc (currentIndex g)\<rparr>"
  have "\<exists>g'. seq_loop ?g2 s' = (out, g', s'', tr') \<and> currentIndex g' = currentIndex e3 \<and>
              map forget_skip (nodes e3) = map forget_skip (nodes g')"
  proof (rule continue.IH)
    show "map forget_skip (nodes (e\<lparr>nodes := (nodes e)[?i := c'], currentIndex := Suc ?i\<rparr>))
        = map forget_skip (nodes ?g2)"
      using continue.prems(1,2) f2 by (simp add: map_update)
  qed (use continue.prems in simp_all)
  then obtain g' where g': "seq_loop ?g2 s' = (out, g', s'', tr')"
    "currentIndex g' = currentIndex e3" "map forget_skip (nodes e3) = map forget_skip (nodes g')"
    by blast
  show ?case
    using seq_loop_continue [OF cg t2 h] g' continue.prems(1) by simp
qed


lemma sel_loop_blind:
  assumes "sel_loop e s = (out, e', s', tr)"
    and "currentIndex g = currentIndex e"
    and "map forget_skip (nodes e) = map forget_skip (nodes g)"
    and "\<forall>j. currentIndex e \<le> j \<and> j < length (nodes e) \<longrightarrow> skip_blind (nodes e ! j)"
  shows "\<exists>g'. sel_loop g s = (out, g', s', tr) \<and> currentIndex g' = currentIndex e' \<and>
              map forget_skip (nodes e') = map forget_skip (nodes g')"
  using assms
proof (induction arbitrary: g rule: sel_loop_induct)
  case (none e s)
  from none(3) have "length (nodes e) = length (nodes g)" by (rule map_eq_imp_length_eq)
  with none(1,2) have "current g = None" by (simp add: current_None_iff)
  with none show ?case by (simp add: sel_loop_none)
next
  case (stop e s c r c' s' tr)
  let ?i = "currentIndex e"
  from stop(5) have len: "length (nodes e) = length (nodes g)" by (rule map_eq_imp_length_eq)
  from stop(1) have lt: "?i < length (nodes e)" and c: "c = nodes e ! ?i"
    by (simp_all add: current_Some_iff)
  have cg: "current g = Some (nodes g ! ?i)"
    using lt len stop(4) by (simp add: current_Some_iff)
  have "forget_skip c = forget_skip (nodes g ! ?i)"
    using stop(5) lt len c by (metis nth_map)
  moreover have "skip_blind c" using stop(6) lt c by simp
  ultimately obtain cg' where t2: "tick (nodes g ! ?i) s = (r, cg', s', tr)"
    and f2: "forget_skip c' = forget_skip cg'"
    using stop(2) by (blast elim: skip_blindD)
  show ?case
    using sel_loop_stop [OF cg t2 stop(3)] stop(4,5) f2 by (simp add: map_update)
next
  case (exhausted e s c r c' s' tr)
  let ?i = "currentIndex e"
  from exhausted(6) have len: "length (nodes e) = length (nodes g)"
    by (rule map_eq_imp_length_eq)
  from exhausted(1) have lt: "?i < length (nodes e)" and c: "c = nodes e ! ?i"
    by (simp_all add: current_Some_iff)
  have cg: "current g = Some (nodes g ! ?i)"
    using lt len exhausted(5) by (simp add: current_Some_iff)
  have "forget_skip c = forget_skip (nodes g ! ?i)"
    using exhausted(6) lt len c by (metis nth_map)
  moreover have "skip_blind c" using exhausted(7) lt c by simp
  ultimately obtain cg' where t2: "tick (nodes g ! ?i) s = (r, cg', s', tr)"
    and f2: "forget_skip c' = forget_skip cg'"
    using exhausted(2) by (blast elim: skip_blindD)
  have h: "\<not> hasNext g" using exhausted(4,5) len by (simp add: hasNext_iff)
  show ?case
    using sel_loop_exhausted [OF cg t2 exhausted(3) h] exhausted(5,6) f2
    by (simp add: map_update)
next
  case (continue e s c r c' s' tr out e3 s'' tr')
  let ?i = "currentIndex e"
  from continue.prems(2) have len: "length (nodes e) = length (nodes g)"
    by (rule map_eq_imp_length_eq)
  from continue(1) have lt: "?i < length (nodes e)" and c: "c = nodes e ! ?i"
    by (simp_all add: current_Some_iff)
  have cg: "current g = Some (nodes g ! ?i)"
    using lt len continue.prems(1) by (simp add: current_Some_iff)
  have "forget_skip c = forget_skip (nodes g ! ?i)"
    using continue.prems(2) lt len c by (metis nth_map)
  moreover have "skip_blind c" using continue.prems(3) lt c by simp
  ultimately obtain cg' where t2: "tick (nodes g ! ?i) s = (r, cg', s', tr)"
    and f2: "forget_skip c' = forget_skip cg'"
    using continue(2) by (blast elim: skip_blindD)
  have h: "hasNext g" using continue(4) continue.prems(1) len by (simp add: hasNext_iff)
  let ?g2 = "g\<lparr>nodes := (nodes g)[currentIndex g := cg'], currentIndex := Suc (currentIndex g)\<rparr>"
  have "\<exists>g'. sel_loop ?g2 s' = (out, g', s'', tr') \<and> currentIndex g' = currentIndex e3 \<and>
              map forget_skip (nodes e3) = map forget_skip (nodes g')"
  proof (rule continue.IH)
    show "map forget_skip (nodes (e\<lparr>nodes := (nodes e)[?i := c'], currentIndex := Suc ?i\<rparr>))
        = map forget_skip (nodes ?g2)"
      using continue.prems(1,2) f2 by (simp add: map_update)
  qed (use continue.prems in simp_all)
  then obtain g' where g': "sel_loop ?g2 s' = (out, g', s'', tr')"
    "currentIndex g' = currentIndex e3" "map forget_skip (nodes e3) = map forget_skip (nodes g')"
    by blast
  show ?case
    using sel_loop_continue [OF cg t2 continue(3) h] g' continue.prems(1) by simp
qed

lemma stock_skip_blind: "stock think t \<Longrightarrow> skip_blind t"
proof (induction t)
  case (Action name action)
  show ?case unfolding skip_blind_def
    by (auto dest: forget_skip_Action [OF sym])
next
  case (Sequence name ks cs en)
  have kids: "\<forall>j. j < length cs \<longrightarrow> skip_blind (cs ! j)"
    using Sequence by (simp add: list_all_length)
  show ?case unfolding skip_blind_def
  proof (intro allI impI)
    fix t2 s
    assume "forget_skip (Sequence name ks cs en) = forget_skip t2"
    then obtain cs2 where t2: "t2 = Sequence name ks cs2 en"
      and m: "map forget_skip cs = map forget_skip cs2"
      using forget_skip_Sequence [of name ks "map forget_skip cs" en t2] by auto
    obtain out e' s' tr where run: "seq_loop (init_enumerator ks cs en) s = (out, e', s', tr)"
      by (cases "seq_loop (init_enumerator ks cs en) s") auto
    from seq_loop_blind [OF run, of "init_enumerator ks cs2 en"] m kids
    obtain g' where "seq_loop (init_enumerator ks cs2 en) s = (out, g', s', tr)"
      "currentIndex g' = currentIndex e'" "map forget_skip (nodes e') = map forget_skip (nodes g')"
      by auto
    with run show "result_of (tick (Sequence name ks cs en) s) = result_of (tick t2 s) \<and>
        state_of (tick (Sequence name ks cs en) s) = state_of (tick t2 s) \<and>
        trace_of (tick (Sequence name ks cs en) s) = trace_of (tick t2 s) \<and>
        forget_skip (node_of (tick (Sequence name ks cs en) s)) = forget_skip (node_of (tick t2 s))"
      by (simp add: t2 tick_Sequence result_of_def state_of_def trace_of_def node_of_def)
  qed
next
  case (Selector name ks cs en)
  have kids: "\<forall>j. j < length cs \<longrightarrow> skip_blind (cs ! j)"
    using Selector by (simp add: list_all_length)
  show ?case unfolding skip_blind_def
  proof (intro allI impI)
    fix t2 s
    assume "forget_skip (Selector name ks cs en) = forget_skip t2"
    then obtain cs2 where t2: "t2 = Selector name ks cs2 en"
      and m: "map forget_skip cs = map forget_skip cs2"
      using forget_skip_Selector [of name ks "map forget_skip cs" en t2] by auto
    obtain out e' s' tr where run: "sel_loop (init_enumerator ks cs en) s = (out, e', s', tr)"
      by (cases "sel_loop (init_enumerator ks cs en) s") auto
    from sel_loop_blind [OF run, of "init_enumerator ks cs2 en"] m kids
    obtain g' where "sel_loop (init_enumerator ks cs2 en) s = (out, g', s', tr)"
      "currentIndex g' = currentIndex e'" "map forget_skip (nodes e') = map forget_skip (nodes g')"
      by auto
    with run show "result_of (tick (Selector name ks cs en) s) = result_of (tick t2 s) \<and>
        state_of (tick (Selector name ks cs en) s) = state_of (tick t2 s) \<and>
        trace_of (tick (Selector name ks cs en) s) = trace_of (tick t2 s) \<and>
        forget_skip (node_of (tick (Selector name ks cs en) s)) = forget_skip (node_of (tick t2 s))"
      by (simp add: t2 tick_Selector result_of_def state_of_def trace_of_def node_of_def)
  qed
next
  case (Decorator name before after f node)
  have h: "stock_hooks think before after"
    using Decorator.prems by (cases node) simp_all
  show ?case unfolding skip_blind_def
  proof (intro allI impI)
    fix t2 s
    let ?t = "Decorator name before after f node"
    assume "forget_skip ?t = forget_skip t2"
    then obtain g node2 where t2: "t2 = Decorator name before after g node2"
      and fg: "f\<lparr>should_skip := False\<rparr> = g\<lparr>should_skip := False\<rparr>"
      and nn: "map_option forget_skip node = map_option forget_skip node2"
      using forget_skip_Decorator by blast
    obtain ns f1 where b1: "before s f = (ns, f1)" by (cases "before s f")
    obtain ns2 g1 where b2: "before s g = (ns2, g1)" by (cases "before s g")
    from stock_before_blind [OF h fg, of s] b1 b2
    have ns: "ns2 = ns" and fg1: "f1\<lparr>should_skip := False\<rparr> = g1\<lparr>should_skip := False\<rparr>"
      by simp_all
    show "result_of (tick ?t s) = result_of (tick t2 s) \<and>
        state_of (tick ?t s) = state_of (tick t2 s) \<and>
        trace_of (tick ?t s) = trace_of (tick t2 s) \<and>
        forget_skip (node_of (tick ?t s)) = forget_skip (node_of (tick t2 s))"
    proof (cases node)
      case None
      with nn have "node2 = None" by simp
      with None b1 b2 ns fg1 show ?thesis
        by (simp add: t2 tick.simps result_of_def state_of_def trace_of_def node_of_def)
    next
      case (Some c)
      with nn obtain c2 where n2: "node2 = Some c2" and cc: "forget_skip c = forget_skip c2"
        by (cases node2) auto
      from Some Decorator have "skip_blind c" by simp
      moreover obtain r c' s' tr where t: "tick c ns = (r, c', s', tr)"
        by (cases "tick c ns") auto
      ultimately obtain c2' where t': "tick c2 ns = (r, c2', s', tr)"
        and cc': "forget_skip c' = forget_skip c2'"
        using cc by (blast elim: skip_blindD)
      show ?thesis
      proof (cases r)
        case (Inl err)
        with Some n2 b1 b2 ns fg1 t t' cc' show ?thesis
          by (simp add: t2 tick.simps result_of_def state_of_def trace_of_def node_of_def)
      next
        case (Inr v)
        obtain res f2 s2 where a1: "after v f1 s' = (res, f2, s2)"
          by (cases "after v f1 s'") auto
        obtain res' g2 s2' where a2: "after v g1 s' = (res', g2, s2')"
          by (cases "after v g1 s'") auto
        from stock_after_blind [OF h fg1, of v s'] a1 a2
        have "res' = res" "f2\<lparr>should_skip := False\<rparr> = g2\<lparr>should_skip := False\<rparr>" "s2' = s2"
          by simp_all
        with Inr Some n2 b1 b2 ns t t' cc' a1 a2 show ?thesis
          by (simp add: t2 tick.simps result_of_def state_of_def trace_of_def node_of_def)
      qed
    qed
  qed
qed

text \<open>
  C8. For a tree built from the four classes and the stock hooks, and a tree that
  differs from it only in the values of \<^verbatim>\<open>should_skip\<close> fields: a tick of either, from
  the same state, returns the same result, ends in the same state, makes the same calls
  and leaves trees that again differ only in \<^verbatim>\<open>should_skip\<close> fields.
\<close>

theorem should_skip_unobservable:
  assumes "stock think t1" and "forget_skip t1 = forget_skip t2"
  shows "result_of (tick t1 s) = result_of (tick t2 s) \<and>
         state_of (tick t1 s) = state_of (tick t2 s) \<and>
         trace_of (tick t1 s) = trace_of (tick t2 s) \<and>
         forget_skip (node_of (tick t1 s)) = forget_skip (node_of (tick t2 s))"
  using stock_skip_blind [OF assms(1)] assms(2) unfolding skip_blind_def by blast

theorem should_skip_unobservable_witness:
  "result_of (tick (pending_shoot True) []) = result_of (tick (pending_shoot False) []) \<and>
   state_of (tick (pending_shoot True) []) = state_of (tick (pending_shoot False) []) \<and>
   trace_of (tick (pending_shoot True) []) = trace_of (tick (pending_shoot False) []) \<and>
   forget_skip (node_of (tick (pending_shoot True) []))
     = forget_skip (node_of (tick (pending_shoot False) []))"
proof -
  have h1: "stock think_rec (pending_shoot True)"
    by (simp add: pending_shoot_def stock_hooks_def calling_def)
  have h2: "forget_skip (pending_shoot True) = forget_skip (pending_shoot False)"
    by (simp add: pending_shoot_def)
  from should_skip_unobservable [OF h1 h2, of "[]"] show ?thesis .
qed

end
